theory Spec2Isabelle
  imports Main
begin

section \<open>The lock manager of the hospital DBMS server\<close>

text \<open>
  This theory embeds the class \<open>LockManager\<close> (server/concurrency/LockManager.ts): a
  table of reader/writer locks per resource with a FIFO wait queue, a timeout per
  request, an audit log and a handful of administrative operations.

  The program runs on one JavaScript thread, so every synchronous stretch of code is
  one atomic step. The model rests on these choices:
  \<^item> Each public operation is one step. Where the source awaits the audit sink
    (\<open>await this.log(...)\<close> in \<open>releaseLock\<close>, \<open>forceUnlock\<close>, \<open>clearAll\<close>), no other
    operation runs in between, and a rejected await ends the operation there, as the
    exception does in the source.
  \<^item> The outside world is an input of each step (\<open>Env\<close>): one reading of the clock and
    one answer each of \<open>fs.mkdir\<close> and \<open>fs.appendFile\<close> for the whole step.
  \<^item> A call of \<open>log\<close> that the source does not await takes effect at once, in call
    order. Nothing handles its promise, so if it rejects, the rejection is unhandled:
    the runtime the README asks for (Node.js 18 or later) then ends the process once
    the running step is over. The same holds for the \<open>void this.releaseLock(...)\<close> of
    a simulated lock. The manager records this in \<open>terminated\<close>, and no step starts
    from a terminated manager.
  \<^item> Promises, timers and the file are part of the state: a promise is its outcome, a
    timer an entry in a list of live timers. The continuation of a simulate call runs
    when its promise is settled.
  \<^item> A time stamp is a number and a log line a pair of time stamp and message.
\<close>

subsection \<open>Data model\<close>

datatype LockType = Read | Write

fun typeStr :: "LockType \<Rightarrow> string" where
  "typeStr Read = ''read''"
| "typeStr Write = ''write''"

text \<open>
  A queued request. \<open>reqId\<close> stands for the identity of the JavaScript object (the
  source compares requests with \<open>!==\<close>) and for what hangs on that object: its timer
  and the promise that \<open>resolve\<close> and \<open>reject\<close> settle.
\<close>

record LockRequest =
  type :: LockType
  sessionId :: string
  requestedAt :: nat
  reqId :: nat

text \<open>
  \<open>readers\<close> is a \<open>Map<string, number>\<close>, kept as an association list in insertion
  order (the order in which a JavaScript Map iterates); \<open>writer\<close> is the pair
  \<open>{sessionId, acquiredAt}\<close> or \<open>null\<close>.
\<close>

record LockRecord =
  readers :: "(string \<times> nat) list"
  writer :: "(string \<times> nat) option"
  queue :: "LockRequest list"

text \<open>The errors that reach a caller, with the values their messages interpolate.\<close>

datatype LockError =
    TimeoutError LockType string
  | CancelledError string
  | ForceUnlockError string
  | MkdirError

fun errorMessage :: "LockError \<Rightarrow> string" where
  "errorMessage (TimeoutError t r) =
     ''Lock acquisition timeout for '' @ typeStr t @ '' lock on '' @ r"
| "errorMessage (CancelledError sid) = ''Lock request cancelled for session '' @ sid"
| "errorMessage (ForceUnlockError sid) = ''Force unlock flushed session '' @ sid"
| "errorMessage MkdirError = ''mkdir failed''"

datatype Outcome = Resolved | Rejected LockError

text \<open>
  What the outside world answers during one step: the clock (\<open>Date.now()\<close>), whether
  \<open>fs.mkdir\<close> of the log directory succeeds (asked once, the promise is cached) and
  whether \<open>fs.appendFile\<close> succeeds.
\<close>

record Env =
  now :: nat
  mkdirOk :: bool
  appendOk :: bool

type_synonym LogLine = "nat \<times> string"

text \<open>
  The manager. \<open>locks\<close>, \<open>recentLogs\<close> and \<open>ensureLogDirPromise\<close> are the fields of the
  class (\<open>ensureLogDirPromise\<close>: \<open>None\<close> for \<open>null\<close>, \<open>Some True\<close> for a fulfilled promise,
  \<open>Some False\<close> for a rejected one). The rest is the part of the JavaScript runtime
  the class talks to:
  \<^item> \<open>logFile\<close>: the lines appended to logs/locks.log;
  \<^item> \<open>timers\<close>: the live timeout timers, each with its due time and the resource and
    request its callback closes over;
  \<^item> \<open>outcomes\<close>: how the promise of each request was settled (no entry: pending);
  \<^item> \<open>nextId\<close>: the identity the next request object gets;
  \<^item> \<open>simulations\<close>: the calls of simulateReadLock/simulateWriteLock suspended at
    their \<open>await\<close>, by request, with resource, session and hold time;
  \<^item> \<open>releaseTimers\<close>: the automatic releases scheduled by those calls;
  \<^item> \<open>simReturns\<close>: what those calls returned to their caller;
  \<^item> \<open>terminated\<close>: a promise was rejected with nobody to handle it, which ends the
    process.
\<close>

record LockManager =
  locks :: "(string \<times> LockRecord) list"
  recentLogs :: "LogLine list"
  ensureLogDirPromise :: "bool option"
  logFile :: "LogLine list"
  timers :: "(nat \<times> string \<times> LockRequest) list"
  outcomes :: "(nat \<times> Outcome) list"
  nextId :: nat
  simulations :: "(nat \<times> string \<times> string \<times> nat) list"
  releaseTimers :: "(nat \<times> string \<times> string) list"
  simReturns :: "(nat \<times> (LockError + string)) list"
  terminated :: bool

definition LOCK_TIMEOUT_MS :: nat where
  "LOCK_TIMEOUT_MS = 5000"

definition SIMULATED_HOLD_MS :: nat where
  "SIMULATED_HOLD_MS = 15000"

definition MAX_LOG_ENTRIES :: nat where
  "MAX_LOG_ENTRIES = 200"

definition newManager :: LockManager where
  "newManager = \<lparr>locks = [], recentLogs = [], ensureLogDirPromise = None, logFile = [],
     timers = [], outcomes = [], nextId = 0, simulations = [], releaseTimers = [],
     simReturns = [], terminated = False\<rparr>"

subsection \<open>Audit messages\<close>

definition queuedMessage :: "LockType \<Rightarrow> string \<Rightarrow> string \<Rightarrow> string" where
  "queuedMessage t resourceId sid =
     ''QUEUED type='' @ typeStr t @ '' resource='' @ resourceId @ '' session='' @ sid"

definition acquiredMessage :: "LockType \<Rightarrow> string \<Rightarrow> string \<Rightarrow> string" where
  "acquiredMessage t resourceId sid =
     ''ACQUIRED type='' @ typeStr t @ '' resource='' @ resourceId @ '' session='' @ sid"

definition timeoutMessage :: "LockType \<Rightarrow> string \<Rightarrow> string \<Rightarrow> string" where
  "timeoutMessage t resourceId sid =
     ''TIMEOUT type='' @ typeStr t @ '' resource='' @ resourceId @ '' session='' @ sid"

definition releasedMessage :: "string \<Rightarrow> string \<Rightarrow> string" where
  "releasedMessage resourceId sid = ''RELEASED resource='' @ resourceId @ '' session='' @ sid"

fun join :: "string \<Rightarrow> string list \<Rightarrow> string" where
  "join sep [] = []"
| "join sep [x] = x"
| "join sep (x # y # ys) = x @ sep @ join sep (y # ys)"

definition forceUnlockMessage :: "string \<Rightarrow> string list \<Rightarrow> string" where
  "forceUnlockMessage resourceId affectedSessions =
     ''FORCE_UNLOCK resource='' @ resourceId @ '' sessions='' @ join '','' affectedSessions"

definition simReadSession :: "string \<Rightarrow> string" where
  "simReadSession uuid = ''sim-read-'' @ uuid"

definition simWriteSession :: "string \<Rightarrow> string" where
  "simWriteSession uuid = ''sim-write-'' @ uuid"

subsection \<open>JavaScript maps\<close>

text \<open>
  \<open>Map.get\<close> is \<open>map_of\<close>. \<open>Map.set\<close> overwrites the value of a present key in place
  and appends an absent one; \<open>Map.delete\<close> removes the key.
\<close>

definition mapSet :: "'k \<Rightarrow> 'v \<Rightarrow> ('k \<times> 'v) list \<Rightarrow> ('k \<times> 'v) list" where
  "mapSet k v m =
     (case map_of m k of
        None \<Rightarrow> m @ [(k, v)]
      | Some _ \<Rightarrow> map (\<lambda>(k', v'). if k' = k then (k', v) else (k', v')) m)"

definition mapDelete :: "'k \<Rightarrow> ('k \<times> 'v) list \<Rightarrow> ('k \<times> 'v) list" where
  "mapDelete k m = filter (\<lambda>(k', v'). k' \<noteq> k) m"

definition setRecord :: "string \<Rightarrow> LockRecord \<Rightarrow> LockManager \<Rightarrow> LockManager" where
  "setRecord resourceId record s = s\<lparr>locks := mapSet resourceId record (locks s)\<rparr>"

definition emptyRecord :: LockRecord where
  "emptyRecord = \<lparr>readers = [], writer = None, queue = []\<rparr>"

subsection \<open>The audit sink\<close>

text \<open>
  \<open>ensureLogDir\<close> creates the directory at the first call and caches the promise,
  fulfilled or rejected. \<open>log\<close> awaits it with no handler, so a rejected promise makes
  \<open>log\<close> reject before it writes the file or touches \<open>recentLogs\<close>. A failing
  \<open>appendFile\<close> is caught; the line then goes to the buffer only.
\<close>

definition ensureLogDir :: "Env \<Rightarrow> LockManager \<Rightarrow> bool \<times> LockManager" where
  "ensureLogDir env s =
     (case ensureLogDirPromise s of
        None \<Rightarrow> (mkdirOk env, s\<lparr>ensureLogDirPromise := Some (mkdirOk env)\<rparr>)
      | Some ok \<Rightarrow> (ok, s))"

definition pushLine :: "LogLine \<Rightarrow> LockManager \<Rightarrow> LockManager" where
  "pushLine line s =
     (let buf = recentLogs s @ [line]
      in s\<lparr>recentLogs := (if length buf > MAX_LOG_ENTRIES then tl buf else buf)\<rparr>)"

definition log :: "Env \<Rightarrow> string \<Rightarrow> LockManager \<Rightarrow> (LockError + unit) \<times> LockManager" where
  "log env message s =
     (let line = (now env, message);
          (ok, s1) = ensureLogDir env s
      in if \<not> ok then (Inl MkdirError, s1)
         else (Inr (),
               pushLine line (if appendOk env then s1\<lparr>logFile := logFile s1 @ [line]\<rparr> else s1)))"

text \<open>
  A call \<open>this.log(...)\<close> that is not awaited: when it rejects, nobody handles the
  rejection and the process ends.
\<close>

definition logDetached :: "Env \<Rightarrow> string \<Rightarrow> LockManager \<Rightarrow> LockManager" where
  "logDetached env message s =
     (case log env message s of
        (Inl e, s') \<Rightarrow> s'\<lparr>terminated := True\<rparr>
      | (Inr u, s') \<Rightarrow> s')"

subsection \<open>Promises and timers\<close>

definition clearTimeout :: "nat \<Rightarrow> LockManager \<Rightarrow> LockManager" where
  "clearTimeout i s = s\<lparr>timers := filter (\<lambda>(due, r, q). reqId q \<noteq> i) (timers s)\<rparr>"

text \<open>
  The rest of simulateReadLock/simulateWriteLock after \<open>await this.acquire...Lock\<close>:
  on a grant it schedules the release \<open>holdMs\<close> from now and returns the session id, on
  a rejection the call fails with the same error.
\<close>

definition simulateContinuation :: "Env \<Rightarrow> nat \<Rightarrow> Outcome \<Rightarrow> LockManager \<Rightarrow> LockManager" where
  "simulateContinuation env i oc s =
     (case map_of (simulations s) i of
        None \<Rightarrow> s
      | Some (resourceId, sid, holdMs) \<Rightarrow>
          (case oc of
             Resolved \<Rightarrow>
               s\<lparr>releaseTimers := releaseTimers s @ [(now env + holdMs, resourceId, sid)],
                 simReturns := simReturns s @ [(i, Inr sid)]\<rparr>
           | Rejected e \<Rightarrow> s\<lparr>simReturns := simReturns s @ [(i, Inl e)]\<rparr>))"

text \<open>Settling a promise: the first settlement counts, later ones do nothing.\<close>

definition settle :: "Env \<Rightarrow> nat \<Rightarrow> Outcome \<Rightarrow> LockManager \<Rightarrow> LockManager" where
  "settle env i oc s =
     (case map_of (outcomes s) i of
        Some _ \<Rightarrow> s
      | None \<Rightarrow> simulateContinuation env i oc (s\<lparr>outcomes := outcomes s @ [(i, oc)]\<rparr>))"

text \<open>The closures \<open>request.resolve\<close> and \<open>request.reject\<close> built in \<open>enqueue\<close>.\<close>

definition requestResolve :: "Env \<Rightarrow> string \<Rightarrow> LockRequest \<Rightarrow> LockManager \<Rightarrow> LockManager" where
  "requestResolve env resourceId req s =
     settle env (reqId req) Resolved
       (logDetached env (acquiredMessage (type req) resourceId (sessionId req))
          (clearTimeout (reqId req) s))"

definition requestReject :: "Env \<Rightarrow> LockRequest \<Rightarrow> LockError \<Rightarrow> LockManager \<Rightarrow> LockManager" where
  "requestReject env req e s = settle env (reqId req) (Rejected e) (clearTimeout (reqId req) s)"

subsection \<open>The scheduler\<close>

definition cleanup :: "string \<Rightarrow> LockManager \<Rightarrow> LockManager" where
  "cleanup resourceId s =
     (case map_of (locks s) resourceId of
        None \<Rightarrow> s
      | Some record \<Rightarrow>
          if readers record = [] \<and> writer record = None \<and> queue record = []
          then s\<lparr>locks := mapDelete resourceId (locks s)\<rparr>
          else s)"

text \<open>
  The loop at the end of \<open>processQueue\<close>: while the queue's head is a read request and
  there is no writer, shift it, enter its session in \<open>readers\<close> and resolve it. The loop
  runs over the queue, the reader map and the manager (\<open>resolve\<close> does not touch the
  record); it returns what is left of the queue.
\<close>

fun grantReaders ::
  "Env \<Rightarrow> string \<Rightarrow> (string \<times> nat) option \<Rightarrow> LockRequest list \<Rightarrow> (string \<times> nat) list \<Rightarrow>
     LockManager \<Rightarrow> LockRequest list \<times> (string \<times> nat) list \<times> LockManager" where
  "grantReaders env resourceId w [] rds s = ([], rds, s)"
| "grantReaders env resourceId w (readerReq # rest) rds s =
     (if type readerReq = Read \<and> w = None
      then grantReaders env resourceId w rest (mapSet (sessionId readerReq) (now env) rds)
             (requestResolve env resourceId readerReq s)
      else (readerReq # rest, rds, s))"

definition processQueue :: "Env \<Rightarrow> string \<Rightarrow> LockManager \<Rightarrow> LockManager" where
  "processQueue env resourceId s =
     (case map_of (locks s) resourceId of
        None \<Rightarrow> s
      | Some record \<Rightarrow>
          (case queue record of
             [] \<Rightarrow> cleanup resourceId s
           | next # rest \<Rightarrow>
               if writer record \<noteq> None then s
               else if type next = Write then
                 (if readers record = []
                  then requestResolve env resourceId next
                         (setRecord resourceId
                            (record\<lparr>queue := rest, writer := Some (sessionId next, now env)\<rparr>) s)
                  else s)
               else
                 (let (queue', readers', s1) =
                        grantReaders env resourceId (writer record) (queue record) (readers record) s
                  in setRecord resourceId (record\<lparr>queue := queue', readers := readers'\<rparr>) s1)))"

subsection \<open>Acquiring\<close>

definition getRecord :: "string \<Rightarrow> LockManager \<Rightarrow> LockRecord \<times> LockManager" where
  "getRecord resourceId s =
     (case map_of (locks s) resourceId of
        Some record \<Rightarrow> (record, s)
      | None \<Rightarrow> (emptyRecord, s\<lparr>locks := locks s @ [(resourceId, emptyRecord)]\<rparr>))"

text \<open>
  \<open>enqueue\<close> up to the point where the promise is handed to the caller: the record is
  fetched or created, the timer started, the request pushed, the event logged (not
  awaited) and the scheduler run. The promise of the new request is \<open>nextId s\<close>.
\<close>

definition enqueue :: "Env \<Rightarrow> string \<Rightarrow> string \<Rightarrow> LockType \<Rightarrow> nat \<Rightarrow> LockManager \<Rightarrow> LockManager" where
  "enqueue env resourceId sid t timeout s =
     (let (record, s1) = getRecord resourceId s;
          request = \<lparr>type = t, sessionId = sid, requestedAt = now env, reqId = nextId s\<rparr>;
          s2 = s1\<lparr>nextId := Suc (nextId s),
                  timers := timers s1 @ [(now env + timeout, resourceId, request)]\<rparr>;
          s3 = setRecord resourceId (record\<lparr>queue := queue record @ [request]\<rparr>) s2;
          s4 = logDetached env (queuedMessage t resourceId sid) s3
      in processQueue env resourceId s4)"

definition acquireReadLock :: "Env \<Rightarrow> string \<Rightarrow> string \<Rightarrow> LockManager \<Rightarrow> LockManager" where
  "acquireReadLock env resourceId sid s = enqueue env resourceId sid Read LOCK_TIMEOUT_MS s"

definition acquireWriteLock :: "Env \<Rightarrow> string \<Rightarrow> string \<Rightarrow> LockManager \<Rightarrow> LockManager" where
  "acquireWriteLock env resourceId sid s = enqueue env resourceId sid Write LOCK_TIMEOUT_MS s"

text \<open>
  The callback of the timer started in \<open>enqueue\<close>. It filters the queue of the record
  it closed over; a timer is live only while its request waits in that record, and a
  record with a waiting request is never taken out of the table, so that record is the
  table's. The promise is rejected directly (not through \<open>request.reject\<close>); the
  timer has fired, so it leaves the live timers.
\<close>

definition timeoutFire :: "Env \<Rightarrow> string \<Rightarrow> LockRequest \<Rightarrow> LockManager \<Rightarrow> LockManager" where
  "timeoutFire env resourceId request s =
     (let s0 = clearTimeout (reqId request) s;
          s1 = (case map_of (locks s0) resourceId of
                  None \<Rightarrow> s0
                | Some record \<Rightarrow>
                    setRecord resourceId
                      (record\<lparr>queue := filter (\<lambda>req. reqId req \<noteq> reqId request) (queue record)\<rparr>) s0);
          s2 = settle env (reqId request) (Rejected (TimeoutError (type request) resourceId)) s1;
          s3 = logDetached env (timeoutMessage (type request) resourceId (sessionId request)) s2
      in processQueue env resourceId (cleanup resourceId s3))"

subsection \<open>Releasing\<close>

text \<open>
  \<open>releaseLock\<close>. The queue is filtered, rejecting the session's own requests on the
  way. When a lock was released the event is logged and awaited: a rejected \<open>log\<close>
  ends the operation there, before \<open>processQueue\<close> and \<open>cleanup\<close>.
\<close>

definition releaseLock ::
  "Env \<Rightarrow> string \<Rightarrow> string \<Rightarrow> LockManager \<Rightarrow> (LockError + unit) \<times> LockManager" where
  "releaseLock env resourceId sid s =
     (case map_of (locks s) resourceId of
        None \<Rightarrow> (Inr (), s)
      | Some record \<Rightarrow>
          (let wasWriter = (case writer record of Some (w, t) \<Rightarrow> w = sid | None \<Rightarrow> False);
               record1 = (if wasWriter then record\<lparr>writer := None\<rparr> else record);
               wasReader = (map_of (readers record1) sid \<noteq> None);
               record2 = record1\<lparr>readers := mapDelete sid (readers record1)\<rparr>;
               released = (wasWriter \<or> wasReader);
               cancelled = filter (\<lambda>req. sessionId req = sid) (queue record2);
               record3 = record2\<lparr>queue := filter (\<lambda>req. sessionId req \<noteq> sid) (queue record2)\<rparr>;
               s1 = fold (\<lambda>req. requestReject env req (CancelledError sid)) cancelled
                      (setRecord resourceId record3 s);
               (r, s2) = (if released then log env (releasedMessage resourceId sid) s1
                          else (Inr (), s1))
           in case r of
                Inl e \<Rightarrow> (Inl e, s2)
              | Inr u \<Rightarrow> (Inr (), cleanup resourceId (processQueue env resourceId s2))))"

subsection \<open>Administration\<close>

text \<open>
  \<open>forceUnlock\<close>. \<open>filter(Boolean)\<close> drops the missing writer and any empty session id
  from the logged list. The log is awaited, so \<open>cleanup\<close> runs only when it succeeds.
\<close>

definition forceUnlock ::
  "Env \<Rightarrow> string \<Rightarrow> LockManager \<Rightarrow> (LockError + unit) \<times> LockManager" where
  "forceUnlock env resourceId s =
     (case map_of (locks s) resourceId of
        None \<Rightarrow> (Inr (), s)
      | Some record \<Rightarrow>
          (let readerSessions = map fst (readers record);
               affectedSessions =
                 filter (\<lambda>x. x \<noteq> [])
                   ((case writer record of Some (w, t) \<Rightarrow> [w] | None \<Rightarrow> []) @ readerSessions);
               s1 = setRecord resourceId (record\<lparr>writer := None, readers := []\<rparr>) s;
               s2 = fold (\<lambda>req. requestReject env req (ForceUnlockError (sessionId req)))
                      (queue record) s1;
               s3 = setRecord resourceId (record\<lparr>writer := None, readers := [], queue := []\<rparr>) s2;
               (r, s4) = log env (forceUnlockMessage resourceId affectedSessions) s3
           in case r of
                Inl e \<Rightarrow> (Inl e, s4)
              | Inr u \<Rightarrow> (Inr (), cleanup resourceId s4)))"

text \<open>The loop of \<open>clearAll\<close> over a copy of the table's keys; a failing call ends it.\<close>

fun forceUnlockAll ::
  "Env \<Rightarrow> string list \<Rightarrow> LockManager \<Rightarrow> (LockError + unit) \<times> LockManager" where
  "forceUnlockAll env [] s = (Inr (), s)"
| "forceUnlockAll env (resourceId # rest) s =
     (case forceUnlock env resourceId s of
        (Inl e, s') \<Rightarrow> (Inl e, s')
      | (Inr u, s') \<Rightarrow> forceUnlockAll env rest s')"

definition clearAll :: "Env \<Rightarrow> LockManager \<Rightarrow> (LockError + unit) \<times> LockManager" where
  "clearAll env s =
     (case forceUnlockAll env (map fst (locks s)) s of
        (Inl e, s') \<Rightarrow> (Inl e, s')
      | (Inr u, s') \<Rightarrow> log env ''CLEAR_ALL invoked'' s')"

subsection \<open>Simulated locks\<close>

text \<open>
  simulateReadLock and simulateWriteLock up to their \<open>await\<close>: the session id is built
  from \<open>randomUUID()\<close> (an input here), the acquisition is enqueued, and the rest of
  the call waits for the request's promise (\<open>simulateContinuation\<close>). The call's own
  result is read from \<open>simReturns\<close> under the request's identity, \<open>nextId s\<close>.
\<close>

definition simulateReadLock :: "Env \<Rightarrow> string \<Rightarrow> string \<Rightarrow> nat \<Rightarrow> LockManager \<Rightarrow> LockManager" where
  "simulateReadLock env uuid resourceId holdMs s =
     (let sid = simReadSession uuid
      in acquireReadLock env resourceId sid
           (s\<lparr>simulations := simulations s @ [(nextId s, resourceId, sid, holdMs)]\<rparr>))"

definition simulateWriteLock :: "Env \<Rightarrow> string \<Rightarrow> string \<Rightarrow> nat \<Rightarrow> LockManager \<Rightarrow> LockManager" where
  "simulateWriteLock env uuid resourceId holdMs s =
     (let sid = simWriteSession uuid
      in acquireWriteLock env resourceId sid
           (s\<lparr>simulations := simulations s @ [(nextId s, resourceId, sid, holdMs)]\<rparr>))"

text \<open>
  The timer of a simulated lock fires: \<open>void this.releaseLock(resourceId, sessionId)\<close>.
  The result is dropped; a rejection is unhandled and ends the process.
\<close>

definition autoRelease :: "Env \<Rightarrow> nat \<times> string \<times> string \<Rightarrow> LockManager \<Rightarrow> LockManager" where
  "autoRelease env tm s =
     (case tm of (due, resourceId, sid) \<Rightarrow>
        (case releaseLock env resourceId sid (s\<lparr>releaseTimers := remove1 tm (releaseTimers s)\<rparr>) of
           (Inl e, s') \<Rightarrow> s'\<lparr>terminated := True\<rparr>
         | (Inr u, s') \<Rightarrow> s'))"

subsection \<open>Snapshots\<close>

record ActiveLockSnapshot =
  a_resourceId :: string
  a_type :: LockType
  a_sessionId :: string
  heldSince :: nat

record QueueSnapshot =
  q_resourceId :: string
  q_type :: LockType
  q_sessionId :: string
  waitingSince :: nat

text \<open>
  \<open>Array.prototype.sort\<close> with a comparator, as a stable insertion sort. Time stamps
  are compared as numbers (the source compares their ISO strings); the collation
  \<open>localeCompare\<close> of resource names is a parameter.
\<close>

fun insertBy :: "('a \<Rightarrow> 'a \<Rightarrow> int) \<Rightarrow> 'a \<Rightarrow> 'a list \<Rightarrow> 'a list" where
  "insertBy cmp x [] = [x]"
| "insertBy cmp x (y # ys) = (if cmp x y \<le> 0 then x # y # ys else y # insertBy cmp x ys)"

definition sortBy :: "('a \<Rightarrow> 'a \<Rightarrow> int) \<Rightarrow> 'a list \<Rightarrow> 'a list" where
  "sortBy cmp xs = foldr (insertBy cmp) xs []"

definition compareNat :: "nat \<Rightarrow> nat \<Rightarrow> int" where
  "compareNat a b = (if a < b then - 1 else if a = b then 0 else 1)"

definition recordLocks :: "string \<times> LockRecord \<Rightarrow> ActiveLockSnapshot list" where
  "recordLocks e =
     (case e of (resourceId, record) \<Rightarrow>
        (case writer record of
           Some (sid, acquiredAt) \<Rightarrow>
             [\<lparr>a_resourceId = resourceId, a_type = Write, a_sessionId = sid, heldSince = acquiredAt\<rparr>]
         | None \<Rightarrow> []) @
        map (\<lambda>(sid, acquiredAt).
               \<lparr>a_resourceId = resourceId, a_type = Read, a_sessionId = sid, heldSince = acquiredAt\<rparr>)
          (readers record))"

text \<open>
  The three queries return their answer and the manager as they leave it: each works
  on arrays of its own, \<open>getRecentLogs\<close> on a copy (\<open>[...this.recentLogs]\<close>).
\<close>

definition getActiveLocks ::
  "(string \<Rightarrow> string \<Rightarrow> int) \<Rightarrow> LockManager \<Rightarrow> ActiveLockSnapshot list \<times> LockManager" where
  "getActiveLocks localeCompare s =
     (let snapshots = concat (map recordLocks (locks s))
      in (sortBy (\<lambda>a b. if compareNat (heldSince a) (heldSince b) \<noteq> 0
                         then compareNat (heldSince a) (heldSince b)
                         else localeCompare (a_resourceId a) (a_resourceId b)) snapshots,
          s))"

definition recordQueue :: "string \<times> LockRecord \<Rightarrow> QueueSnapshot list" where
  "recordQueue e =
     (case e of (resourceId, record) \<Rightarrow>
        map (\<lambda>req. \<lparr>q_resourceId = resourceId, q_type = type req, q_sessionId = sessionId req,
                     waitingSince = requestedAt req\<rparr>)
          (queue record))"

definition getLockQueue :: "LockManager \<Rightarrow> QueueSnapshot list \<times> LockManager" where
  "getLockQueue s =
     (let snapshots = concat (map recordQueue (locks s))
      in (sortBy (\<lambda>a b. compareNat (waitingSince a) (waitingSince b)) snapshots, s))"


subsection \<open>Reachable states\<close>

text \<open>
  The states in which the manager meets its callers: starting empty, any public
  operation with any arguments and any answer of the environment, a timeout of a live
  timer that is due, the automatic release of a simulated lock that is due, and a
  scheduler pass, as long as the process is alive after the step.
\<close>

inductive reachable :: "LockManager \<Rightarrow> bool" where
  r_new: "reachable newManager"
| r_acquireRead: "reachable s \<Longrightarrow> \<not> terminated (acquireReadLock env resourceId sid s) \<Longrightarrow>
     reachable (acquireReadLock env resourceId sid s)"
| r_acquireWrite: "reachable s \<Longrightarrow> \<not> terminated (acquireWriteLock env resourceId sid s) \<Longrightarrow>
     reachable (acquireWriteLock env resourceId sid s)"
| r_processQueue: "reachable s \<Longrightarrow> \<not> terminated (processQueue env resourceId s) \<Longrightarrow>
     reachable (processQueue env resourceId s)"
| r_release: "reachable s \<Longrightarrow> \<not> terminated (snd (releaseLock env resourceId sid s)) \<Longrightarrow>
     reachable (snd (releaseLock env resourceId sid s))"
| r_timeout: "reachable s \<Longrightarrow> (due, resourceId, request) \<in> set (timers s) \<Longrightarrow> due \<le> now env \<Longrightarrow>
     \<not> terminated (timeoutFire env resourceId request s) \<Longrightarrow>
     reachable (timeoutFire env resourceId request s)"
| r_forceUnlock: "reachable s \<Longrightarrow> \<not> terminated (snd (forceUnlock env resourceId s)) \<Longrightarrow>
     reachable (snd (forceUnlock env resourceId s))"
| r_clearAll: "reachable s \<Longrightarrow> \<not> terminated (snd (clearAll env s)) \<Longrightarrow>
     reachable (snd (clearAll env s))"
| r_simulateRead: "reachable s \<Longrightarrow> \<not> terminated (simulateReadLock env uuid resourceId holdMs s) \<Longrightarrow>
     reachable (simulateReadLock env uuid resourceId holdMs s)"
| r_simulateWrite: "reachable s \<Longrightarrow> \<not> terminated (simulateWriteLock env uuid resourceId holdMs s) \<Longrightarrow>
     reachable (simulateWriteLock env uuid resourceId holdMs s)"
| r_autoRelease: "reachable s \<Longrightarrow> tm \<in> set (releaseTimers s) \<Longrightarrow> fst tm \<le> now env \<Longrightarrow>
     \<not> terminated (autoRelease env tm s) \<Longrightarrow>
     reachable (autoRelease env tm s)"

subsection \<open>A run of queries\<close>



section \<open>Notions used in the statements\<close>

subsection \<open>Observations\<close>

text \<open>
  How the promise of request \<open>i\<close> stands (\<open>None\<close>: pending), and what the simulate call
  waiting on request \<open>i\<close> has returned (\<open>None\<close>: nothing yet).
\<close>

definition outcomeOf :: "LockManager \<Rightarrow> nat \<Rightarrow> Outcome option" where
  "outcomeOf s i = map_of (outcomes s) i"

definition simReturn :: "LockManager \<Rightarrow> nat \<Rightarrow> (LockError + string) option" where
  "simReturn s i = map_of (simReturns s) i"

definition isRead :: "LockRequest \<Rightarrow> bool" where
  "isRead req = (type req = Read)"

text \<open>
  What a simulate call with session \<open>sid\<close> has returned, given how its request stands:
  nothing while it is pending, the session id once it is granted, the error once it
  is rejected.
\<close>

definition expectedReturn :: "string \<Rightarrow> Outcome option \<Rightarrow> (LockError + string) option" where
  "expectedReturn sid oc =
     (case oc of None \<Rightarrow> None | Some Resolved \<Rightarrow> Some (Inr sid) | Some (Rejected e) \<Rightarrow> Some (Inl e))"

subsection \<open>The parts of releaseLock and forceUnlock\<close>

text \<open>
  \<open>releaseLock\<close> on a record of the table, in parts: whether the session held a lock,
  the record after the release, and the manager after the session's queued requests
  were rejected. \<open>forceUnlock\<close> likewise: the sessions it logs and the manager after the
  flush. The lemmas \<open>releaseLock_present\<close> and \<open>forceUnlock_present\<close> show that the
  operations are built from these parts.
\<close>

definition releaseHeld :: "string \<Rightarrow> LockRecord \<Rightarrow> bool" where
  "releaseHeld sid rc =
     ((case writer rc of Some (w, t) \<Rightarrow> w = sid | None \<Rightarrow> False) \<or> map_of (readers rc) sid \<noteq> None)"

definition releaseRecord :: "string \<Rightarrow> LockRecord \<Rightarrow> LockRecord" where
  "releaseRecord sid rc =
     rc\<lparr>writer := (case writer rc of Some (w, t) \<Rightarrow> if w = sid then None else writer rc | None \<Rightarrow> None),
        readers := mapDelete sid (readers rc),
        queue := filter (\<lambda>req. sessionId req \<noteq> sid) (queue rc)\<rparr>"

definition releaseCancel :: "Env \<Rightarrow> string \<Rightarrow> string \<Rightarrow> LockRecord \<Rightarrow> LockManager \<Rightarrow> LockManager" where
  "releaseCancel env r sid rc s =
     fold (\<lambda>req. requestReject env req (CancelledError sid))
       (filter (\<lambda>req. sessionId req = sid) (queue rc)) (setRecord r (releaseRecord sid rc) s)"

definition forceSessions :: "LockRecord \<Rightarrow> string list" where
  "forceSessions rc =
     filter (\<lambda>x. x \<noteq> []) ((case writer rc of Some (w, t) \<Rightarrow> [w] | None \<Rightarrow> []) @ map fst (readers rc))"

definition forceFlush :: "Env \<Rightarrow> string \<Rightarrow> LockRecord \<Rightarrow> LockManager \<Rightarrow> LockManager" where
  "forceFlush env r rc s =
     setRecord r (rc\<lparr>writer := None, readers := [], queue := []\<rparr>)
       (fold (\<lambda>req. requestReject env req (ForceUnlockError (sessionId req))) (queue rc)
          (setRecord r (rc\<lparr>writer := None, readers := []\<rparr>) s))"

subsection \<open>Invariants\<close>

text \<open>No record of the table has a writer and readers at once.\<close>

definition mutex :: "LockManager \<Rightarrow> bool" where
  "mutex s = (\<forall>e \<in> set (locks s). writer (snd e) = None \<or> readers (snd e) = [])"

text \<open>
  Request identities are handed out in order: every settled promise, every queued
  request and every live timer belongs to a request made before.
\<close>

definition boundedIds :: "LockManager \<Rightarrow> bool" where
  "boundedIds s =
     ((\<forall>p \<in> set (outcomes s). fst p < nextId s) \<and>
      (\<forall>e \<in> set (locks s). \<forall>q \<in> set (queue (snd e)). reqId q < nextId s) \<and>
      (\<forall>t \<in> set (timers s). reqId (snd (snd t)) < nextId s))"

text \<open>
  A simulate call has returned exactly what the state of its request allows, and a
  request no simulate call waits on has returned nothing.
\<close>

definition returnsMatch :: "LockManager \<Rightarrow> bool" where
  "returnsMatch s =
     (\<forall>i. simReturn s i =
        (case map_of (simulations s) i of
           None \<Rightarrow> None
         | Some x \<Rightarrow> expectedReturn (fst (snd x)) (outcomeOf s i)))"

text \<open>Every scheduled automatic release belongs to a simulate call whose request was granted.\<close>

definition releasesGranted :: "LockManager \<Rightarrow> bool" where
  "releasesGranted s =
     (\<forall>t \<in> set (releaseTimers s).
        \<exists>i hold. map_of (simulations s) i = Some (fst (snd t), snd (snd t), hold) \<and>
                 outcomeOf s i = Some Resolved)"

definition simInv :: "LockManager \<Rightarrow> bool" where
  "simInv s = (boundedIds s \<and> returnsMatch s \<and> releasesGranted s)"

text \<open>\<open>keeps s s'\<close>: a step from \<open>s\<close> to \<open>s'\<close> registers no simulate call and takes back no identity.\<close>

definition keeps :: "LockManager \<Rightarrow> LockManager \<Rightarrow> bool" where
  "keeps s s' = (simulations s' = simulations s \<and> nextId s \<le> nextId s')"


text \<open>
  \<open>queuedAt s r\<close>: the requests waiting on resource \<open>r\<close>. \<open>queueInv\<close>: the requests of a
  queue are distinct objects, no request waits on two resources, every waiting request
  has a pending promise, and every live timer belongs to a request that waits on the
  timer's resource. \<open>removes r X s s'\<close>: from \<open>s\<close> to \<open>s'\<close> exactly the requests with
  identities \<open>X\<close> left the queue of \<open>r\<close>, only their promises were settled and only their
  timers cleared.
\<close>

definition queuedAt :: "LockManager \<Rightarrow> string \<Rightarrow> LockRequest list" where
  "queuedAt s r = (case map_of (locks s) r of None \<Rightarrow> [] | Some rc \<Rightarrow> queue rc)"

definition queueInv :: "LockManager \<Rightarrow> bool" where
  "queueInv s =
     ((\<forall>r. distinct (map reqId (queuedAt s r))) \<and>
      (\<forall>r k. r \<noteq> k \<longrightarrow> reqId ` set (queuedAt s r) \<inter> reqId ` set (queuedAt s k) = {}) \<and>
      (\<forall>r. \<forall>q \<in> set (queuedAt s r). outcomeOf s (reqId q) = None) \<and>
      (\<forall>t \<in> set (timers s). snd (snd t) \<in> set (queuedAt s (fst (snd t)))))"

definition removes :: "string \<Rightarrow> nat set \<Rightarrow> LockManager \<Rightarrow> LockManager \<Rightarrow> bool" where
  "removes r X s s' =
     ((\<forall>k. k \<noteq> r \<longrightarrow> queuedAt s' k = queuedAt s k) \<and>
      queuedAt s' r = filter (\<lambda>q. reqId q \<notin> X) (queuedAt s r) \<and>
      (\<forall>i. i \<notin> X \<longrightarrow> outcomeOf s' i = outcomeOf s i) \<and>
      timers s' = filter (\<lambda>t. reqId (snd (snd t)) \<notin> X) (timers s) \<and>
      X \<subseteq> reqId ` set (queuedAt s r))"

subsection \<open>Live runs\<close>

text \<open>
  \<open>logReady\<close>: the log directory has been created, so \<open>log\<close> cannot reject any more.
  \<open>promiseStep env s s'\<close>: from \<open>s\<close> to \<open>s'\<close> the cached promise of the directory stayed
  as it was or was created with the answer of \<open>env\<close>, and a process that had ended did
  not come back.
\<close>

definition logReady :: "LockManager \<Rightarrow> bool" where
  "logReady s = (ensureLogDirPromise s = Some True)"

definition promiseStep :: "Env \<Rightarrow> LockManager \<Rightarrow> LockManager \<Rightarrow> bool" where
  "promiseStep env s s' =
     ((ensureLogDirPromise s' = ensureLogDirPromise s \<or>
       (ensureLogDirPromise s = None \<and> ensureLogDirPromise s' = Some (mkdirOk env))) \<and>
      (terminated s \<longrightarrow> terminated s'))"

text \<open>
  A record is \<open>idle\<close> when it has no reader, no writer and no queued request (the test of
  \<open>cleanup\<close>), \<open>blocked\<close> when the scheduler has nothing to grant on it, and \<open>quiet\<close> when
  it is in use and blocked. \<open>holdsNothing sid rc\<close>: session \<open>sid\<close> is not the writer of
  \<open>rc\<close>, not among its readers and has no request in its queue. \<open>tidy\<close>: every entry of
  the table is quiet, and the log directory exists as soon as the table has an entry.
\<close>

definition idle :: "LockRecord \<Rightarrow> bool" where
  "idle rc = (readers rc = [] \<and> writer rc = None \<and> queue rc = [])"

definition blocked :: "LockRecord \<Rightarrow> bool" where
  "blocked rc =
     (case queue rc of
        [] \<Rightarrow> True
      | nx # rest \<Rightarrow> writer rc \<noteq> None \<or> (type nx = Write \<and> readers rc \<noteq> []))"

definition quiet :: "LockRecord \<Rightarrow> bool" where
  "quiet rc = (\<not> idle rc \<and> blocked rc)"

definition allQuiet :: "LockManager \<Rightarrow> bool" where
  "allQuiet s = (\<forall>r rc. map_of (locks s) r = Some rc \<longrightarrow> quiet rc)"

definition quietExcept :: "string \<Rightarrow> LockManager \<Rightarrow> bool" where
  "quietExcept r s = (\<forall>k rc. k \<noteq> r \<longrightarrow> map_of (locks s) k = Some rc \<longrightarrow> quiet rc)"


definition tidy :: "LockManager \<Rightarrow> bool" where
  "tidy s = (allQuiet s \<and> (locks s \<noteq> [] \<longrightarrow> logReady s))"

subsection \<open>Example runs\<close>

text \<open>
  Environments: everything works (\<open>env0\<close>, and \<open>envLate\<close> five seconds later); the log
  directory cannot be created (\<open>envNoDir\<close>); the directory exists and appending to the
  file fails (\<open>envNoAppend\<close>).
\<close>

definition env0 :: Env where
  "env0 = \<lparr>now = 10, mkdirOk = True, appendOk = True\<rparr>"

definition envLate :: Env where
  "envLate = \<lparr>now = 5010, mkdirOk = True, appendOk = True\<rparr>"

definition envNoDir :: Env where
  "envNoDir = \<lparr>now = 10, mkdirOk = False, appendOk = True\<rparr>"

definition envNoAppend :: Env where
  "envNoAppend = \<lparr>now = 10, mkdirOk = True, appendOk = False\<rparr>"

text \<open>
  Runs on one resource R, from a new manager, at time 10: session A takes the write
  lock; then B asks to read (or to write); then C asks to read; then D asks to write
  and E to read.
\<close>

definition heldByA :: LockManager where
  "heldByA = acquireWriteLock env0 ''R'' ''A'' newManager"

definition readerQueued :: LockManager where
  "readerQueued = acquireReadLock env0 ''R'' ''B'' heldByA"

definition writerQueued :: LockManager where
  "writerQueued = acquireWriteLock env0 ''R'' ''B'' heldByA"

definition twoReadersQueued :: LockManager where
  "twoReadersQueued = acquireReadLock env0 ''R'' ''C'' readerQueued"

definition mixedQueue :: LockManager where
  "mixedQueue =
     acquireReadLock env0 ''R'' ''E'' (acquireWriteLock env0 ''R'' ''D'' twoReadersQueued)"

text \<open>A collation that ranks all resource names equal.\<close>

definition flatCollation :: "string \<Rightarrow> string \<Rightarrow> int" where
  "flatCollation a b = 0"

text \<open>The request object made at time 10 with identity \<open>i\<close>.\<close>

definition exampleRequest :: "LockType \<Rightarrow> string \<Rightarrow> nat \<Rightarrow> LockRequest" where
  "exampleRequest t sid i = \<lparr>type = t, sessionId = sid, requestedAt = 10, reqId = i\<rparr>"

text \<open>
  \<open>readHeldWriterQueued\<close>: A reads, B waits to write.
\<close>

definition readHeldWriterQueued :: LockManager where
  "readHeldWriterQueued =
     acquireWriteLock env0 ''R'' ''B'' (acquireReadLock env0 ''R'' ''A'' newManager)"


text \<open>
  \<open>releasingWithWriter\<close> and \<open>releasingMixed\<close>: the manager inside A's release of the write
  lock, after the RELEASED line is logged and before the scheduler runs, with B waiting
  to write, and with B, C, D, E waiting.
\<close>

definition releasingWithWriter :: LockManager where
  "releasingWithWriter =
     snd (log env0 (releasedMessage ''R'' ''A'')
       (releaseCancel env0 ''R'' ''A''
          \<lparr>readers = [], writer = Some (''A'', 10), queue = [exampleRequest Write ''B'' 1]\<rparr> writerQueued))"

definition releasingMixed :: LockManager where
  "releasingMixed =
     snd (log env0 (releasedMessage ''R'' ''A'')
       (releaseCancel env0 ''R'' ''A''
          \<lparr>readers = [], writer = Some (''A'', 10),
             queue = [exampleRequest Read ''B'' 1, exampleRequest Read ''C'' 2,
                      exampleRequest Write ''D'' 3, exampleRequest Read ''E'' 4]\<rparr> mixedQueue))"



section \<open>Proofs\<close>

lemma releaseLock_absent:
  "map_of (locks s) r = None \<Longrightarrow> releaseLock env r sid s = (Inr (), s)"
  by (simp add: releaseLock_def)

lemma releaseLock_present:
  assumes "map_of (locks s) r = Some rc"
  shows "releaseLock env r sid s =
     (if releaseHeld sid rc
      then (case log env (releasedMessage r sid) (releaseCancel env r sid rc s) of
              (Inl e, s2) \<Rightarrow> (Inl e, s2)
            | (Inr u, s2) \<Rightarrow> (Inr (), cleanup r (processQueue env r s2)))
      else (Inr (), cleanup r (processQueue env r (releaseCancel env r sid rc s))))"
proof -
  have rec: "(if (case writer rc of Some (w, t) \<Rightarrow> w = sid | None \<Rightarrow> False)
              then rc\<lparr>writer := None\<rparr> else rc)
             \<lparr>readers := mapDelete sid (readers rc),
               queue := filter (\<lambda>req. sessionId req \<noteq> sid) (queue rc)\<rparr> = releaseRecord sid rc"
    by (cases "writer rc") (auto simp: releaseRecord_def)
  have rd: "readers (if (case writer rc of Some (w, t) \<Rightarrow> w = sid | None \<Rightarrow> False)
              then rc\<lparr>writer := None\<rparr> else rc) = readers rc"
    and qu: "queue (if (case writer rc of Some (w, t) \<Rightarrow> w = sid | None \<Rightarrow> False)
              then rc\<lparr>writer := None\<rparr> else rc) = queue rc"
    by simp_all
  show ?thesis
    unfolding releaseLock_def Let_def assms option.case releaseHeld_def releaseCancel_def
      rec[symmetric]
    by (simp only: rd qu LockRecord.simps split: prod.splits sum.splits if_splits) auto
qed

lemma forceUnlock_absent:
  "map_of (locks s) r = None \<Longrightarrow> forceUnlock env r s = (Inr (), s)"
  by (simp add: forceUnlock_def)

lemma forceUnlock_present:
  assumes "map_of (locks s) r = Some rc"
  shows "forceUnlock env r s =
     (case log env (forceUnlockMessage r (forceSessions rc)) (forceFlush env r rc s) of
        (Inl e, s4) \<Rightarrow> (Inl e, s4)
      | (Inr u, s4) \<Rightarrow> (Inr (), cleanup r s4))"
  unfolding forceUnlock_def Let_def assms option.case forceSessions_def forceFlush_def
  by (simp split: prod.splits sum.splits)

lemma set_mapSet: "e \<in> set (mapSet k v m) \<Longrightarrow> e \<in> set m \<or> e = (k, v)"
  by (auto simp: mapSet_def split: option.splits if_splits)

lemma set_mapDelete: "e \<in> set (mapDelete k m) \<Longrightarrow> e \<in> set m"
  by (auto simp: mapDelete_def)

lemma locks_setRecord: "e \<in> set (locks (setRecord r rc s)) \<Longrightarrow> e \<in> set (locks s) \<or> e = (r, rc)"
  by (auto simp: setRecord_def dest: set_mapSet)

lemma locks_ensureLogDir [simp]: "locks (snd (ensureLogDir env s)) = locks s"
  by (simp add: ensureLogDir_def split: option.splits)

lemma locks_pushLine [simp]: "locks (pushLine l s) = locks s"
  by (simp add: pushLine_def Let_def)

lemma locks_log [simp]: "locks (snd (log env m s)) = locks s"
  by (simp add: log_def ensureLogDir_def Let_def split: option.splits prod.splits)

lemma logDetached_eq:
  "logDetached env m s =
     (snd (log env m s))\<lparr>terminated := terminated (snd (log env m s)) \<or> fst (log env m s) \<noteq> Inr ()\<rparr>"
  by (cases "log env m s") (auto simp: logDetached_def split: sum.splits)

lemma autoRelease_eq:
  "autoRelease env (due, r, sid) s =
     (snd (releaseLock env r sid (s\<lparr>releaseTimers := remove1 (due, r, sid) (releaseTimers s)\<rparr>)))
       \<lparr>terminated :=
          terminated (snd (releaseLock env r sid (s\<lparr>releaseTimers := remove1 (due, r, sid) (releaseTimers s)\<rparr>))) \<or>
          fst (releaseLock env r sid (s\<lparr>releaseTimers := remove1 (due, r, sid) (releaseTimers s)\<rparr>)) \<noteq> Inr ()\<rparr>"
  by (cases "releaseLock env r sid (s\<lparr>releaseTimers := remove1 (due, r, sid) (releaseTimers s)\<rparr>)")
     (auto simp: autoRelease_def split: sum.splits)

lemma locks_logDetached [simp]: "locks (logDetached env m s) = locks s"
  by (simp add: logDetached_eq)

lemma locks_clearTimeout [simp]: "locks (clearTimeout i s) = locks s"
  by (simp add: clearTimeout_def)

lemma locks_simulateContinuation [simp]: "locks (simulateContinuation env i oc s) = locks s"
  by (simp add: simulateContinuation_def split: option.splits prod.splits Outcome.splits)

lemma locks_settle [simp]: "locks (settle env i oc s) = locks s"
  by (simp add: settle_def split: option.splits)

lemma locks_requestResolve [simp]: "locks (requestResolve env r q s) = locks s"
  by (simp add: requestResolve_def)

lemma locks_requestReject [simp]: "locks (requestReject env q e s) = locks s"
  by (simp add: requestReject_def)

lemma locks_fold_requestReject [simp]:
  "locks (fold (\<lambda>req. requestReject env req (f req)) qs s) = locks s"
  by (induction qs arbitrary: s) simp_all

lemma locks_grantReaders [simp]:
  "locks (snd (snd (grantReaders env r w qs rds s))) = locks s"
  by (induction qs arbitrary: rds s) auto

lemma mutex_terminated [simp]: "mutex (s\<lparr>terminated := b\<rparr>) = mutex s"
  by (simp add: mutex_def)

lemma mutex_same_locks: "locks s' = locks s \<Longrightarrow> mutex s \<Longrightarrow> mutex s'"
  by (simp add: mutex_def)

lemma mutex_setRecord:
  "mutex s \<Longrightarrow> writer rc = None \<or> readers rc = [] \<Longrightarrow> mutex (setRecord r rc s)"
  unfolding mutex_def by (auto dest!: locks_setRecord)

lemma mutex_cleanup: "mutex s \<Longrightarrow> mutex (cleanup r s)"
  unfolding mutex_def cleanup_def by (auto split: option.splits dest: set_mapDelete)

lemma mutex_lookup: "mutex s \<Longrightarrow> map_of (locks s) r = Some rc \<Longrightarrow> writer rc = None \<or> readers rc = []"
  unfolding mutex_def by (auto dest!: map_of_SomeD)

lemma mutex_processQueue:
  assumes m: "mutex s"
  shows "mutex (processQueue env r s)"
proof (cases "map_of (locks s) r")
  case None
  then show ?thesis using m by (simp add: processQueue_def)
next
  case (Some rc)
  show ?thesis
  proof (cases "queue rc")
    case Nil
    then show ?thesis using m Some by (simp add: processQueue_def mutex_cleanup)
  next
    case (Cons nx rest)
    show ?thesis
    proof (cases "writer rc \<noteq> None \<or> (type nx = Write \<and> readers rc \<noteq> [])")
      case True
      then show ?thesis using m Some Cons by (auto simp: processQueue_def)
    next
      case False
      then have w: "writer rc = None" by (cases "writer rc") auto
      show ?thesis
      proof (cases "type nx = Write")
        case True
        with False have e: "readers rc = []" by simp
        have "mutex (setRecord r (rc\<lparr>queue := rest, writer := Some (sessionId nx, now env)\<rparr>) s)"
          using m e by (intro mutex_setRecord) simp_all
        then have "mutex (requestResolve env r nx
            (setRecord r (rc\<lparr>queue := rest, writer := Some (sessionId nx, now env)\<rparr>) s))"
          by (rule mutex_same_locks[rotated]) simp
        then show ?thesis using Some Cons w True e by (simp add: processQueue_def)
      next
        case notW: False
        obtain q' r' s1 where g: "grantReaders env r (writer rc) (queue rc) (readers rc) s = (q', r', s1)"
          by (cases "grantReaders env r (writer rc) (queue rc) (readers rc) s") auto
        have "locks s1 = locks s"
          using locks_grantReaders[of env r "writer rc" "queue rc" "readers rc" s] g by simp
        then have "mutex s1" using m by (simp add: mutex_def)
        then have "mutex (setRecord r (rc\<lparr>queue := q', readers := r'\<rparr>) s1)"
          using w by (intro mutex_setRecord) simp_all
        then show ?thesis using Some Cons w notW g by (simp add: processQueue_def)
      qed
    qed
  qed
qed

lemma mutex_enqueue:
  assumes m: "mutex s"
  shows "mutex (enqueue env r sid t tmo s)"
proof -
  obtain rc s1 where g: "getRecord r s = (rc, s1)" by (cases "getRecord r s") auto
  have m1: "mutex s1" and ok: "writer rc = None \<or> readers rc = []"
    using m g by (auto simp: getRecord_def mutex_def emptyRecord_def split: option.splits dest!: map_of_SomeD)
  let ?rq = "\<lparr>type = t, sessionId = sid, requestedAt = now env, reqId = nextId s\<rparr>"
  let ?s2 = "s1\<lparr>nextId := Suc (nextId s), timers := timers s1 @ [(now env + tmo, r, ?rq)]\<rparr>"
  have "mutex ?s2" using m1 by (simp add: mutex_def)
  then have "mutex (setRecord r (rc\<lparr>queue := queue rc @ [?rq]\<rparr>) ?s2)"
    using ok by (intro mutex_setRecord) simp_all
  then have "mutex (logDetached env (queuedMessage t r sid) (setRecord r (rc\<lparr>queue := queue rc @ [?rq]\<rparr>) ?s2))"
    by (rule mutex_same_locks[rotated]) simp
  then have "mutex (processQueue env r (logDetached env (queuedMessage t r sid) (setRecord r (rc\<lparr>queue := queue rc @ [?rq]\<rparr>) ?s2)))"
    by (rule mutex_processQueue)
  then show ?thesis by (simp add: enqueue_def Let_def g)
qed

lemma mutex_timeoutFire:
  assumes m: "mutex s"
  shows "mutex (timeoutFire env r rq s)"
proof -
  define s0 where "s0 = clearTimeout (reqId rq) s"
  define s1 where "s1 = (case map_of (locks s0) r of None \<Rightarrow> s0
     | Some record \<Rightarrow> setRecord r (record\<lparr>queue := filter (\<lambda>req. reqId req \<noteq> reqId rq) (queue record)\<rparr>) s0)"
  have m0: "mutex s0" using m by (simp add: mutex_def s0_def)
  have m1: "mutex s1"
  proof (cases "map_of (locks s0) r")
    case None
    then show ?thesis using m0 by (simp add: s1_def)
  next
    case (Some rc)
    from mutex_lookup[OF m0 Some]
    have "mutex (setRecord r (rc\<lparr>queue := filter (\<lambda>req. reqId req \<noteq> reqId rq) (queue rc)\<rparr>) s0)"
      using m0 by (intro mutex_setRecord) simp_all
    then show ?thesis using Some by (simp add: s1_def)
  qed
  have "mutex (logDetached env (timeoutMessage (type rq) r (sessionId rq))
           (settle env (reqId rq) (Rejected (TimeoutError (type rq) r)) s1))"
    using m1 by (rule mutex_same_locks[rotated]) simp
  then have "mutex (processQueue env r (cleanup r (logDetached env (timeoutMessage (type rq) r (sessionId rq))
           (settle env (reqId rq) (Rejected (TimeoutError (type rq) r)) s1))))"
    by (intro mutex_processQueue mutex_cleanup)
  then show ?thesis unfolding timeoutFire_def Let_def s1_def s0_def .
qed

lemma mutex_releaseLock:
  assumes m: "mutex s"
  shows "mutex (snd (releaseLock env r sid s))"
proof (cases "map_of (locks s) r")
  case None
  then show ?thesis using m by (simp add: releaseLock_absent)
next
  case (Some rc)
  from mutex_lookup[OF m Some] have "writer (releaseRecord sid rc) = None \<or> readers (releaseRecord sid rc) = []"
    by (auto simp: releaseRecord_def mapDelete_def split: option.splits)
  then have "mutex (setRecord r (releaseRecord sid rc) s)" using m by (intro mutex_setRecord)
  then have m1: "mutex (releaseCancel env r sid rc s)"
    unfolding releaseCancel_def by (rule mutex_same_locks[rotated]) simp
  have ml: "mutex (snd (log env (releasedMessage r sid) (releaseCancel env r sid rc s)))"
    using m1 by (rule mutex_same_locks[rotated]) simp
  show ?thesis
  proof (cases "releaseHeld sid rc")
    case False
    then show ?thesis
      by (simp add: releaseLock_present[OF Some] mutex_cleanup mutex_processQueue m1)
  next
    case True
    obtain res s2 where l: "log env (releasedMessage r sid) (releaseCancel env r sid rc s) = (res, s2)"
      by (cases "log env (releasedMessage r sid) (releaseCancel env r sid rc s)") auto
    with ml have "mutex s2" by simp
    then show ?thesis
      using True l by (cases res) (simp_all add: releaseLock_present[OF Some] mutex_cleanup mutex_processQueue)
  qed
qed

lemma mutex_forceUnlock:
  assumes m: "mutex s"
  shows "mutex (snd (forceUnlock env r s))"
proof (cases "map_of (locks s) r")
  case None
  then show ?thesis using m by (simp add: forceUnlock_absent)
next
  case (Some rc)
  have "mutex (setRecord r (rc\<lparr>writer := None, readers := []\<rparr>) s)"
    using m by (intro mutex_setRecord) simp_all
  then have "mutex (fold (\<lambda>req. requestReject env req (ForceUnlockError (sessionId req))) (queue rc)
          (setRecord r (rc\<lparr>writer := None, readers := []\<rparr>) s))"
    by (rule mutex_same_locks[rotated]) simp
  then have m3: "mutex (forceFlush env r rc s)"
    unfolding forceFlush_def by (intro mutex_setRecord) simp_all
  obtain res s4 where l: "log env (forceUnlockMessage r (forceSessions rc)) (forceFlush env r rc s) = (res, s4)"
    by (cases "log env (forceUnlockMessage r (forceSessions rc)) (forceFlush env r rc s)") auto
  have "locks s4 = locks (forceFlush env r rc s)"
    using locks_log[of env "forceUnlockMessage r (forceSessions rc)" "forceFlush env r rc s"] l by simp
  then have "mutex s4" using m3 by (rule mutex_same_locks)
  then show ?thesis
    using l by (cases res) (simp_all add: forceUnlock_present[OF Some] mutex_cleanup)
qed

lemma mutex_forceUnlockAll: "mutex s \<Longrightarrow> mutex (snd (forceUnlockAll env rs s))"
proof (induction rs arbitrary: s)
  case Nil
  then show ?case by simp
next
  case (Cons r rs)
  obtain res s' where f: "forceUnlock env r s = (res, s')" by (cases "forceUnlock env r s") auto
  with mutex_forceUnlock[OF Cons.prems, of env r] have "mutex s'" by simp
  then show ?case using f Cons.IH[of s'] by (cases res) simp_all
qed

lemma mutex_clearAll:
  assumes m: "mutex s"
  shows "mutex (snd (clearAll env s))"
proof -
  obtain res s' where f: "forceUnlockAll env (map fst (locks s)) s = (res, s')"
    by (cases "forceUnlockAll env (map fst (locks s)) s") auto
  with mutex_forceUnlockAll[OF m, of env "map fst (locks s)"] have m': "mutex s'" by simp
  have "mutex (snd (log env ''CLEAR_ALL invoked'' s'))"
    using m' by (rule mutex_same_locks[rotated]) simp
  then show ?thesis using f m' by (cases res) (simp_all add: clearAll_def)
qed

lemma mutex_reachable: "reachable s \<Longrightarrow> mutex s"
proof (induction rule: reachable.induct)
  case r_new
  show ?case by (simp add: mutex_def newManager_def)
next
  case (r_acquireRead s env resourceId sid)
  then show ?case by (simp add: acquireReadLock_def mutex_enqueue)
next
  case (r_acquireWrite s env resourceId sid)
  then show ?case by (simp add: acquireWriteLock_def mutex_enqueue)
next
  case (r_processQueue s env resourceId)
  then show ?case by (simp add: mutex_processQueue)
next
  case (r_release s env resourceId sid)
  then show ?case by (simp add: mutex_releaseLock)
next
  case (r_timeout s due resourceId request env)
  then show ?case by (simp add: mutex_timeoutFire)
next
  case (r_forceUnlock s env resourceId)
  then show ?case by (simp add: mutex_forceUnlock)
next
  case (r_clearAll s env)
  then show ?case by (simp add: mutex_clearAll)
next
  case (r_simulateRead s env uuid resourceId holdMs)
  then have "mutex (s\<lparr>simulations := simulations s @ [(nextId s, resourceId, simReadSession uuid, holdMs)]\<rparr>)"
    by (simp add: mutex_def)
  then show ?case by (simp add: simulateReadLock_def acquireReadLock_def Let_def mutex_enqueue)
next
  case (r_simulateWrite s env uuid resourceId holdMs)
  then have "mutex (s\<lparr>simulations := simulations s @ [(nextId s, resourceId, simWriteSession uuid, holdMs)]\<rparr>)"
    by (simp add: mutex_def)
  then show ?case by (simp add: simulateWriteLock_def acquireWriteLock_def Let_def mutex_enqueue)
next
  case (r_autoRelease s tm env)
  then have "mutex (s\<lparr>releaseTimers := remove1 tm (releaseTimers s)\<rparr>)"
    by (simp add: mutex_def)
  then show ?case by (cases tm) (simp add: autoRelease_eq mutex_releaseLock)
qed

lemma map_of_mapSet_same [simp]: "map_of (mapSet k v m) k = Some v"
proof (cases "map_of m k")
  case None
  then show ?thesis by (simp add: mapSet_def map_add_def)
next
  case (Some a)
  have "map_of (map (\<lambda>(k', v'). if k' = k then (k', v) else (k', v')) m) k = Some v"
    using Some by (induction m) (auto split: if_splits)
  then show ?thesis using Some by (simp add: mapSet_def)
qed

lemma map_of_mapSet_other [simp]: "k' \<noteq> k \<Longrightarrow> map_of (mapSet k v m) k' = map_of m k'"
proof (cases "map_of m k")
  case None
  assume "k' \<noteq> k"
  then show ?thesis using None by (simp add: mapSet_def map_add_def split: option.splits)
next
  case (Some a)
  assume "k' \<noteq> k"
  then have "map_of (map (\<lambda>(k', v'). if k' = k then (k', v) else (k', v')) m) k' = map_of m k'"
    by (induction m) (auto split: if_splits)
  then show ?thesis using Some by (simp add: mapSet_def)
qed

lemma lookup_setRecord_same [simp]: "map_of (locks (setRecord r rc s)) r = Some rc"
  by (simp add: setRecord_def)

lemma lookup_setRecord_other [simp]: "r' \<noteq> r \<Longrightarrow> map_of (locks (setRecord r rc s)) r' = map_of (locks s) r'"
  by (simp add: setRecord_def)

lemma outcomes_setRecord [simp]: "outcomes (setRecord r rc s) = outcomes s"
  by (simp add: setRecord_def)

lemma outcomes_log [simp]: "outcomes (snd (log env m s)) = outcomes s"
  by (simp add: log_def ensureLogDir_def pushLine_def Let_def split: option.splits prod.splits)

lemma outcomes_logDetached [simp]: "outcomes (logDetached env m s) = outcomes s"
  by (simp add: logDetached_eq)

lemma outcomes_clearTimeout [simp]: "outcomes (clearTimeout i s) = outcomes s"
  by (simp add: clearTimeout_def)

lemma outcomes_simulateContinuation [simp]: "outcomes (simulateContinuation env i oc s) = outcomes s"
  by (simp add: simulateContinuation_def split: option.splits prod.splits Outcome.splits)

lemma outcomeOf_settle:
  "outcomeOf (settle env i oc s) j =
     (if j = i \<and> outcomeOf s i = None then Some oc else outcomeOf s j)"
  by (auto simp: settle_def outcomeOf_def map_add_def split: option.splits)

lemma outcomeOf_requestResolve:
  "outcomeOf (requestResolve env r q s) j =
     (if j = reqId q \<and> outcomeOf s (reqId q) = None then Some Resolved else outcomeOf s j)"
  by (simp add: requestResolve_def outcomeOf_settle) (simp add: outcomeOf_def)

lemma grantReaders_queue:
  "fst (grantReaders env r None qs rds s) = dropWhile isRead qs"
  by (induction qs arbitrary: rds s) (auto simp: isRead_def)

lemma grantReaders_readers:
  "fst (snd (grantReaders env r None qs rds s)) =
     fold (\<lambda>q. mapSet (sessionId q) (now env)) (takeWhile isRead qs) rds"
  by (induction qs arbitrary: rds s) (auto simp: isRead_def)

lemma grantReaders_state:
  "snd (snd (grantReaders env r None qs rds s)) =
     fold (requestResolve env r) (takeWhile isRead qs) s"
  by (induction qs arbitrary: rds s) (auto simp: isRead_def)

lemma outcomeOf_fold_resolve_other:
  "j \<notin> reqId ` set qs \<Longrightarrow> outcomeOf (fold (requestResolve env r) qs s) j = outcomeOf s j"
  by (induction qs arbitrary: s) (auto simp: outcomeOf_requestResolve)

lemma outcomeOf_fold_resolve_keep:
  "outcomeOf s j = Some oc \<Longrightarrow> outcomeOf (fold (requestResolve env r) qs s) j = Some oc"
proof (induction qs arbitrary: s)
  case Nil
  then show ?case by simp
next
  case (Cons a qs)
  have "outcomeOf (requestResolve env r a s) j = Some oc"
    using Cons.prems by (auto simp: outcomeOf_requestResolve)
  then show ?case using Cons.IH by simp
qed

lemma outcomeOf_fold_resolve_granted:
  "q \<in> set qs \<Longrightarrow> outcomeOf s (reqId q) = None \<Longrightarrow>
     outcomeOf (fold (requestResolve env r) qs s) (reqId q) = Some Resolved"
proof (induction qs arbitrary: s)
  case Nil
  then show ?case by simp
next
  case (Cons a qs)
  show ?case
  proof (cases "reqId a = reqId q")
    case True
    then have "outcomeOf (requestResolve env r a s) (reqId q) = Some Resolved"
      using Cons.prems by (simp add: outcomeOf_requestResolve)
    then show ?thesis by (simp add: outcomeOf_fold_resolve_keep)
  next
    case False
    then have "q \<in> set qs" and "outcomeOf (requestResolve env r a s) (reqId q) = None"
      using Cons.prems by (auto simp: outcomeOf_requestResolve)
    then show ?thesis using Cons.IH by simp
  qed
qed

lemma processQueue_readHead:
  assumes "map_of (locks s) r = Some rc" "writer rc = None" "queue rc = nx # rest" "type nx = Read"
  shows "processQueue env r s =
     setRecord r (rc\<lparr>queue := dropWhile isRead (queue rc),
                     readers := fold (\<lambda>q. mapSet (sessionId q) (now env)) (takeWhile isRead (queue rc)) (readers rc)\<rparr>)
       (fold (requestResolve env r) (takeWhile isRead (queue rc)) s)"
proof -
  obtain q' r' s1 where g: "grantReaders env r None (queue rc) (readers rc) s = (q', r', s1)"
    by (cases "grantReaders env r None (queue rc) (readers rc) s") auto
  have "q' = dropWhile isRead (queue rc)"
    using grantReaders_queue[of env r "queue rc" "readers rc" s] g by simp
  moreover have "r' = fold (\<lambda>q. mapSet (sessionId q) (now env)) (takeWhile isRead (queue rc)) (readers rc)"
    using grantReaders_readers[of env r "queue rc" "readers rc" s] g by simp
  moreover have "s1 = fold (requestResolve env r) (takeWhile isRead (queue rc)) s"
    using grantReaders_state[of env r "queue rc" "readers rc" s] g by simp
  moreover have "processQueue env r s = setRecord r (rc\<lparr>queue := q', readers := r'\<rparr>) s1"
    using assms g by (simp add: processQueue_def)
  ultimately show ?thesis by simp
qed

lemmas eval_defs = env0_def envLate_def envNoDir_def envNoAppend_def newManager_def acquireWriteLock_def acquireReadLock_def enqueue_def
  getRecord_def emptyRecord_def setRecord_def mapSet_def mapDelete_def logDetached_def log_def ensureLogDir_def
  pushLine_def processQueue_def cleanup_def requestResolve_def requestReject_def settle_def
  simulateContinuation_def clearTimeout_def LOCK_TIMEOUT_MS_def MAX_LOG_ENTRIES_def Let_def

lemma frame_setRecord [simp]:
  "outcomes (setRecord r rc s) = outcomes s" "simulations (setRecord r rc s) = simulations s"
  "simReturns (setRecord r rc s) = simReturns s" "releaseTimers (setRecord r rc s) = releaseTimers s"
  "nextId (setRecord r rc s) = nextId s" "timers (setRecord r rc s) = timers s"
  by (simp_all add: setRecord_def)

lemma frame_cleanup [simp]:
  "outcomes (cleanup r s) = outcomes s" "simulations (cleanup r s) = simulations s"
  "simReturns (cleanup r s) = simReturns s" "releaseTimers (cleanup r s) = releaseTimers s"
  "nextId (cleanup r s) = nextId s" "timers (cleanup r s) = timers s"
  by (simp_all add: cleanup_def split: option.splits)

lemma frame_log [simp]:
  "outcomes (snd (log env m s)) = outcomes s" "simulations (snd (log env m s)) = simulations s"
  "simReturns (snd (log env m s)) = simReturns s" "releaseTimers (snd (log env m s)) = releaseTimers s"
  "nextId (snd (log env m s)) = nextId s" "timers (snd (log env m s)) = timers s"
  by (simp_all add: log_def ensureLogDir_def pushLine_def Let_def split: option.splits prod.splits)

lemma frame_logDetached [simp]:
  "outcomes (logDetached env m s) = outcomes s" "simulations (logDetached env m s) = simulations s"
  "simReturns (logDetached env m s) = simReturns s" "releaseTimers (logDetached env m s) = releaseTimers s"
  "nextId (logDetached env m s) = nextId s" "timers (logDetached env m s) = timers s"
  by (simp_all add: logDetached_eq)

lemma frame_clearTimeout [simp]:
  "outcomes (clearTimeout i s) = outcomes s" "simulations (clearTimeout i s) = simulations s"
  "simReturns (clearTimeout i s) = simReturns s" "releaseTimers (clearTimeout i s) = releaseTimers s"
  "nextId (clearTimeout i s) = nextId s"
  by (simp_all add: clearTimeout_def)

lemma timers_clearTimeout: "t \<in> set (timers (clearTimeout i s)) \<Longrightarrow> t \<in> set (timers s)"
  by (auto simp: clearTimeout_def)

lemma frame_settle [simp]:
  "simulations (settle env i oc s) = simulations s"
  "nextId (settle env i oc s) = nextId s" "timers (settle env i oc s) = timers s"
  by (simp_all add: settle_def simulateContinuation_def split: option.splits prod.splits Outcome.splits)

lemma outcomeOf_terminated [simp]: "outcomeOf (s\<lparr>terminated := b\<rparr>) = outcomeOf s"
  by (rule ext) (simp add: outcomeOf_def)

lemma simInv_terminated [simp]: "simInv (s\<lparr>terminated := b\<rparr>) = simInv s"
  by (simp add: simInv_def boundedIds_def returnsMatch_def releasesGranted_def simReturn_def
      cong: option.case_cong)

lemma simInv_frame:
  assumes "simInv s"
    and "outcomes s' = outcomes s" and "simulations s' = simulations s"
    and "simReturns s' = simReturns s" and "releaseTimers s' = releaseTimers s"
    and "nextId s \<le> nextId s'"
    and "\<forall>t \<in> set (timers s'). t \<in> set (timers s) \<or> reqId (snd (snd t)) < nextId s'"
    and "\<forall>e \<in> set (locks s'). e \<in> set (locks s) \<or> (\<forall>q \<in> set (queue (snd e)). reqId q < nextId s')"
  shows "simInv s'"
proof -
  have b: "boundedIds s" and m: "returnsMatch s" and g: "releasesGranted s"
    using assms(1) by (simp_all add: simInv_def)
  have "boundedIds s'"
    unfolding boundedIds_def
  proof (intro conjI ballI)
    fix p assume "p \<in> set (outcomes s')"
    then show "fst p < nextId s'" using b assms(2,6) by (fastforce simp: boundedIds_def)
  next
    fix e q assume "e \<in> set (locks s')" "q \<in> set (queue (snd e))"
    then show "reqId q < nextId s'" using b assms(6,8) by (fastforce simp: boundedIds_def)
  next
    fix t assume "t \<in> set (timers s')"
    then show "reqId (snd (snd t)) < nextId s'" using b assms(6,7) by (fastforce simp: boundedIds_def)
  qed
  moreover have oo: "outcomeOf s' = outcomeOf s"
    by (rule ext) (simp add: outcomeOf_def assms(2))
  moreover have "returnsMatch s'"
    using m assms(3,4) by (simp add: returnsMatch_def simReturn_def oo split: option.splits)
  moreover have "releasesGranted s'"
    using g assms(3,5) by (simp add: releasesGranted_def oo)
  ultimately show ?thesis by (simp add: simInv_def)
qed

lemma simInv_setRecord:
  "simInv s \<Longrightarrow> \<forall>q \<in> set (queue rc). reqId q < nextId s \<Longrightarrow> simInv (setRecord r rc s)"
  by (rule simInv_frame[where s = s]) (auto dest!: locks_setRecord)

lemma simInv_cleanup: "simInv s \<Longrightarrow> simInv (cleanup r s)"
  by (rule simInv_frame[where s = s]) (auto simp: cleanup_def split: option.splits dest: set_mapDelete)

lemma simInv_log: "simInv s \<Longrightarrow> simInv (snd (log env m s))"
  by (rule simInv_frame[where s = s]) auto

lemma simInv_logDetached: "simInv s \<Longrightarrow> simInv (logDetached env m s)"
  by (rule simInv_frame[where s = s]) auto

lemma simInv_clearTimeout: "simInv s \<Longrightarrow> simInv (clearTimeout i s)"
  by (rule simInv_frame[where s = s]) (auto dest: timers_clearTimeout)

lemma simInv_lookup:
  "simInv s \<Longrightarrow> map_of (locks s) r = Some rc \<Longrightarrow> q \<in> set (queue rc) \<Longrightarrow> reqId q < nextId s"
  by (auto simp: simInv_def boundedIds_def dest!: map_of_SomeD)

lemma outcomeOf_append:
  "map_of (ocs @ [(i, oc)]) j = (if j = i \<and> map_of ocs i = None then Some oc else map_of ocs j)"
  by (auto simp: map_add_def split: option.splits)

lemma simInv_settle:
  assumes inv: "simInv s" and lt: "i < nextId s"
  shows "simInv (settle env i oc s)"
proof (cases "outcomeOf s i")
  case (Some a)
  then show ?thesis using inv by (simp add: settle_def outcomeOf_def)
next
  case None
  have b: "boundedIds s" and m: "returnsMatch s" and g: "releasesGranted s"
    using inv by (simp_all add: simInv_def)
  let ?s1 = "s\<lparr>outcomes := outcomes s @ [(i, oc)]\<rparr>"
  let ?s' = "settle env i oc s"
  have s': "?s' = simulateContinuation env i oc ?s1"
    using None by (simp add: settle_def outcomeOf_def)
  have oc': "\<And>j. outcomeOf ?s' j = (if j = i then Some oc else outcomeOf s j)"
    using None by (simp add: outcomeOf_settle)
  have locks': "locks ?s' = locks s" by simp
  have out': "outcomes ?s' = outcomes s @ [(i, oc)]"
    by (simp add: s')
  have bnd: "boundedIds ?s'"
    using b lt unfolding boundedIds_def by (auto simp: out')
  have ret: "\<And>j. simReturn ?s' j =
      (case map_of (simulations s) i of
         None \<Rightarrow> simReturn s j
       | Some x \<Rightarrow> if j = i then expectedReturn (fst (snd x)) (Some oc) else simReturn s j)"
  proof -
    fix j
    show "simReturn ?s' j =
      (case map_of (simulations s) i of
         None \<Rightarrow> simReturn s j
       | Some x \<Rightarrow> if j = i then expectedReturn (fst (snd x)) (Some oc) else simReturn s j)"
    proof (cases "map_of (simulations s) i")
      case None
      then show ?thesis by (simp add: s' simulateContinuation_def simReturn_def)
    next
      case (Some x)
      obtain r sid hold where x: "x = (r, sid, hold)" by (cases x) auto
      have "simReturn s i = None"
        using m Some None by (simp add: returnsMatch_def expectedReturn_def \<open>outcomeOf s i = None\<close>)
      then show ?thesis
        using Some x unfolding s' simulateContinuation_def simReturn_def
        by (cases oc) (auto simp: map_add_def expectedReturn_def split: option.splits)
    qed
  qed
  have rm: "returnsMatch ?s'"
    unfolding returnsMatch_def
  proof
    fix j
    show "simReturn ?s' j =
        (case map_of (simulations ?s') j of None \<Rightarrow> None
         | Some x \<Rightarrow> expectedReturn (fst (snd x)) (outcomeOf ?s' j))"
    proof (cases "j = i")
      case True
      show ?thesis
      proof (cases "map_of (simulations s) i")
        case None
        have "simReturn s i = None" using m None by (simp add: returnsMatch_def)
        then show ?thesis using True None by (simp add: ret)
      next
        case (Some x)
        then show ?thesis using True by (simp add: ret oc')
      qed
    next
      case False
      have "simReturn ?s' j = simReturn s j"
        using False by (simp add: ret split: option.splits)
      then show ?thesis using m False by (simp add: returnsMatch_def oc' split: option.splits)
    qed
  qed
  have rts: "\<And>t. t \<in> set (releaseTimers ?s') \<Longrightarrow>
      t \<in> set (releaseTimers s) \<or>
      (oc = Resolved \<and> (\<exists>hold. map_of (simulations s) i = Some (fst (snd t), snd (snd t), hold)))"
    by (auto simp: s' simulateContinuation_def split: option.splits Outcome.splits)
  have rg: "releasesGranted ?s'"
    unfolding releasesGranted_def
  proof
    fix t assume "t \<in> set (releaseTimers ?s')"
    from rts[OF this] show "\<exists>j hold. map_of (simulations ?s') j = Some (fst (snd t), snd (snd t), hold) \<and>
                 outcomeOf ?s' j = Some Resolved"
    proof
      assume "t \<in> set (releaseTimers s)"
      then obtain j hold where j: "map_of (simulations s) j = Some (fst (snd t), snd (snd t), hold)"
        "outcomeOf s j = Some Resolved"
        using g by (auto simp: releasesGranted_def)
      then have "j \<noteq> i" using None by auto
      then show ?thesis using j by (auto simp: oc')
    next
      assume a: "oc = Resolved \<and> (\<exists>hold. map_of (simulations s) i = Some (fst (snd t), snd (snd t), hold))"
      then obtain hold where h: "map_of (simulations s) i = Some (fst (snd t), snd (snd t), hold)"
        by blast
      have "outcomeOf ?s' i = Some oc" by (simp add: oc')
      then have "outcomeOf ?s' i = Some Resolved" using a by simp
      moreover have "map_of (simulations ?s') i = Some (fst (snd t), snd (snd t), hold)"
        using h by simp
      ultimately show ?thesis by blast
    qed
  qed
  from bnd rm rg show ?thesis by (simp add: simInv_def)
qed

lemma simInv_requestResolve:
  "simInv s \<Longrightarrow> reqId q < nextId s \<Longrightarrow> simInv (requestResolve env r q s)"
  unfolding requestResolve_def
  by (intro simInv_settle simInv_logDetached simInv_clearTimeout) simp_all

lemma simInv_requestReject:
  "simInv s \<Longrightarrow> reqId q < nextId s \<Longrightarrow> simInv (requestReject env q e s)"
  unfolding requestReject_def
  by (intro simInv_settle simInv_clearTimeout) simp_all

lemma nextId_requestResolve [simp]: "nextId (requestResolve env r q s) = nextId s"
  by (simp add: requestResolve_def)

lemma nextId_requestReject [simp]: "nextId (requestReject env q e s) = nextId s"
  by (simp add: requestReject_def)

lemma simInv_fold_resolve:
  "simInv s \<Longrightarrow> \<forall>q \<in> set qs. reqId q < nextId s \<Longrightarrow>
     simInv (fold (requestResolve env r) qs s) \<and> nextId (fold (requestResolve env r) qs s) = nextId s"
  by (induction qs arbitrary: s) (simp_all add: simInv_requestResolve)

lemma simInv_fold_reject:
  "simInv s \<Longrightarrow> \<forall>q \<in> set qs. reqId q < nextId s \<Longrightarrow>
     simInv (fold (\<lambda>req. requestReject env req (f req)) qs s) \<and>
     nextId (fold (\<lambda>req. requestReject env req (f req)) qs s) = nextId s"
  by (induction qs arbitrary: s) (simp_all add: simInv_requestReject)

lemma nextId_grantReaders [simp]:
  "nextId (snd (snd (grantReaders env r w qs rds s))) = nextId s"
  by (induction qs arbitrary: rds s) auto

lemma simInv_processQueue:
  assumes inv: "simInv s"
  shows "simInv (processQueue env r s)"
proof (cases "map_of (locks s) r")
  case None
  then show ?thesis using inv by (simp add: processQueue_def)
next
  case (Some rc)
  note bound = simInv_lookup[OF inv Some]
  show ?thesis
  proof (cases "queue rc")
    case Nil
    then show ?thesis using inv Some by (simp add: processQueue_def simInv_cleanup)
  next
    case (Cons nx rest)
    show ?thesis
    proof (cases "writer rc \<noteq> None \<or> (type nx = Write \<and> readers rc \<noteq> [])")
      case True
      then show ?thesis using inv Some Cons by (auto simp: processQueue_def)
    next
      case False
      then have w: "writer rc = None" by (cases "writer rc") auto
      show ?thesis
      proof (cases "type nx = Write")
        case True
        with False have e: "readers rc = []" by simp
        have "simInv (setRecord r (rc\<lparr>queue := rest, writer := Some (sessionId nx, now env)\<rparr>) s)"
          using inv bound Cons by (intro simInv_setRecord) simp_all
        then have "simInv (requestResolve env r nx
            (setRecord r (rc\<lparr>queue := rest, writer := Some (sessionId nx, now env)\<rparr>) s))"
          using bound[of nx] Cons by (intro simInv_requestResolve) simp_all
        then show ?thesis using Some Cons w True e by (simp add: processQueue_def)
      next
        case notW: False
        then have rd: "type nx = Read" by (cases "type nx") simp_all
        let ?pre = "takeWhile isRead (queue rc)"
        have "\<forall>q \<in> set ?pre. reqId q < nextId s"
          using bound by (auto dest: set_takeWhileD)
        from simInv_fold_resolve[OF inv this, of env r]
        have i1: "simInv (fold (requestResolve env r) ?pre s)"
          and n1: "nextId (fold (requestResolve env r) ?pre s) = nextId s" by simp_all
        have "\<forall>q \<in> set (dropWhile isRead (queue rc)). reqId q < nextId (fold (requestResolve env r) ?pre s)"
          using bound n1 by (auto dest: set_dropWhileD)
        then show ?thesis
          unfolding processQueue_readHead[OF Some w Cons rd]
          using i1 by (intro simInv_setRecord) simp_all
      qed
    qed
  qed
qed

lemma boundedIds_fresh: "simInv s \<Longrightarrow> outcomeOf s (nextId s) = None"
  by (cases "outcomeOf s (nextId s)")
     (auto simp: simInv_def boundedIds_def outcomeOf_def dest!: map_of_SomeD)

lemma simInv_enqueue:
  assumes inv: "simInv s"
  shows "simInv (enqueue env r sid t tmo s)"
proof -
  obtain rc s1 where g: "getRecord r s = (rc, s1)" by (cases "getRecord r s") auto
  let ?rq = "\<lparr>type = t, sessionId = sid, requestedAt = now env, reqId = nextId s\<rparr>"
  let ?s2 = "s1\<lparr>nextId := Suc (nextId s), timers := timers s1 @ [(now env + tmo, r, ?rq)]\<rparr>"
  have s1: "outcomes s1 = outcomes s" "simulations s1 = simulations s" "simReturns s1 = simReturns s"
    "releaseTimers s1 = releaseTimers s" "nextId s1 = nextId s" "timers s1 = timers s"
    using g by (auto simp: getRecord_def split: option.splits)
  have l1: "\<forall>e \<in> set (locks s1). e \<in> set (locks s) \<or> queue (snd e) = []"
    using g by (auto simp: getRecord_def emptyRecord_def split: option.splits)
  have rcq: "\<forall>q \<in> set (queue rc). reqId q < nextId s"
    using g simInv_lookup[OF inv] by (auto simp: getRecord_def emptyRecord_def split: option.splits)
  have "simInv ?s2"
    by (rule simInv_frame[OF inv]) (use s1 l1 in auto)
  then have "simInv (setRecord r (rc\<lparr>queue := queue rc @ [?rq]\<rparr>) ?s2)"
    using rcq by (intro simInv_setRecord) auto
  then have "simInv (processQueue env r (logDetached env (queuedMessage t r sid)
      (setRecord r (rc\<lparr>queue := queue rc @ [?rq]\<rparr>) ?s2)))"
    by (intro simInv_processQueue simInv_logDetached)
  then show ?thesis by (simp add: enqueue_def Let_def g)
qed

lemma simInv_timeoutFire:
  assumes inv: "simInv s" and lt: "reqId rq < nextId s"
  shows "simInv (timeoutFire env r rq s)"
proof -
  define s0 where "s0 = clearTimeout (reqId rq) s"
  define s1 where "s1 = (case map_of (locks s0) r of None \<Rightarrow> s0
     | Some record \<Rightarrow> setRecord r (record\<lparr>queue := filter (\<lambda>req. reqId req \<noteq> reqId rq) (queue record)\<rparr>) s0)"
  have i0: "simInv s0" using inv by (simp add: s0_def simInv_clearTimeout)
  have n0: "nextId s0 = nextId s" by (simp add: s0_def)
  have i1: "simInv s1 \<and> nextId s1 = nextId s"
  proof (cases "map_of (locks s0) r")
    case None
    then show ?thesis using i0 n0 by (simp add: s1_def)
  next
    case (Some rc)
    have "simInv (setRecord r (rc\<lparr>queue := filter (\<lambda>req. reqId req \<noteq> reqId rq) (queue rc)\<rparr>) s0)"
      using i0 simInv_lookup[OF i0 Some] by (intro simInv_setRecord) auto
    then show ?thesis using Some n0 by (simp add: s1_def)
  qed
  then have "simInv (settle env (reqId rq) (Rejected (TimeoutError (type rq) r)) s1)"
    using lt by (intro simInv_settle) simp_all
  then have "simInv (processQueue env r (cleanup r (logDetached env (timeoutMessage (type rq) r (sessionId rq))
           (settle env (reqId rq) (Rejected (TimeoutError (type rq) r)) s1))))"
    by (intro simInv_processQueue simInv_cleanup simInv_logDetached)
  then show ?thesis unfolding timeoutFire_def Let_def s1_def s0_def .
qed

lemma simInv_releaseLock:
  assumes inv: "simInv s"
  shows "simInv (snd (releaseLock env r sid s))"
proof (cases "map_of (locks s) r")
  case None
  then show ?thesis using inv by (simp add: releaseLock_absent)
next
  case (Some rc)
  note bound = simInv_lookup[OF inv Some]
  have "simInv (setRecord r (releaseRecord sid rc) s)"
    using inv bound by (intro simInv_setRecord) (auto simp: releaseRecord_def)
  then have i1: "simInv (releaseCancel env r sid rc s)"
    unfolding releaseCancel_def
    using bound by (intro simInv_fold_reject[THEN conjunct1]) auto
  show ?thesis
  proof (cases "releaseHeld sid rc")
    case False
    then show ?thesis
      by (simp add: releaseLock_present[OF Some] simInv_cleanup simInv_processQueue i1)
  next
    case True
    obtain res s2 where l: "log env (releasedMessage r sid) (releaseCancel env r sid rc s) = (res, s2)"
      by (cases "log env (releasedMessage r sid) (releaseCancel env r sid rc s)") auto
    with simInv_log[OF i1, of env "releasedMessage r sid"] have "simInv s2" by simp
    then show ?thesis
      using True l by (cases res) (simp_all add: releaseLock_present[OF Some] simInv_cleanup simInv_processQueue)
  qed
qed

lemma simInv_forceUnlock:
  assumes inv: "simInv s"
  shows "simInv (snd (forceUnlock env r s))"
proof (cases "map_of (locks s) r")
  case None
  then show ?thesis using inv by (simp add: forceUnlock_absent)
next
  case (Some rc)
  note bound = simInv_lookup[OF inv Some]
  have "simInv (setRecord r (rc\<lparr>writer := None, readers := []\<rparr>) s)"
    using inv bound by (intro simInv_setRecord) auto
  then have "simInv (fold (\<lambda>req. requestReject env req (ForceUnlockError (sessionId req))) (queue rc)
          (setRecord r (rc\<lparr>writer := None, readers := []\<rparr>) s))"
    using bound by (intro simInv_fold_reject[THEN conjunct1]) auto
  then have i3: "simInv (forceFlush env r rc s)"
    unfolding forceFlush_def by (intro simInv_setRecord) simp_all
  obtain res s4 where l: "log env (forceUnlockMessage r (forceSessions rc)) (forceFlush env r rc s) = (res, s4)"
    by (cases "log env (forceUnlockMessage r (forceSessions rc)) (forceFlush env r rc s)") auto
  with simInv_log[OF i3, of env "forceUnlockMessage r (forceSessions rc)"] have "simInv s4" by simp
  then show ?thesis
    using l by (cases res) (simp_all add: forceUnlock_present[OF Some] simInv_cleanup)
qed

lemma simInv_forceUnlockAll: "simInv s \<Longrightarrow> simInv (snd (forceUnlockAll env rs s))"
proof (induction rs arbitrary: s)
  case Nil
  then show ?case by simp
next
  case (Cons r rs)
  obtain res s' where f: "forceUnlock env r s = (res, s')" by (cases "forceUnlock env r s") auto
  with simInv_forceUnlock[OF Cons.prems, of env r] have "simInv s'" by simp
  then show ?case using f Cons.IH[of s'] by (cases res) simp_all
qed

lemma simInv_clearAll:
  assumes inv: "simInv s"
  shows "simInv (snd (clearAll env s))"
proof -
  obtain res s' where f: "forceUnlockAll env (map fst (locks s)) s = (res, s')"
    by (cases "forceUnlockAll env (map fst (locks s)) s") auto
  with simInv_forceUnlockAll[OF inv, of env "map fst (locks s)"] have i': "simInv s'" by simp
  then show ?thesis using f simInv_log[OF i', of env "''CLEAR_ALL invoked''"]
    by (cases res) (simp_all add: clearAll_def)
qed

lemma simInv_register:
  assumes inv: "simInv s"
  shows "simInv (s\<lparr>simulations := simulations s @ [(nextId s, r, sid, hold)]\<rparr>)"
proof -
  let ?s' = "s\<lparr>simulations := simulations s @ [(nextId s, r, sid, hold)]\<rparr>"
  have b: "boundedIds s" and m: "returnsMatch s" and g: "releasesGranted s"
    using inv by (simp_all add: simInv_def)
  have oo: "outcomeOf ?s' = outcomeOf s" by (rule ext) (simp add: outcomeOf_def)
  have sims: "\<And>j. map_of (simulations ?s') j =
      (if j = nextId s \<and> map_of (simulations s) (nextId s) = None then Some (r, sid, hold)
       else map_of (simulations s) j)"
    by (auto simp: map_add_def split: option.splits)
  have "boundedIds ?s'" using b by (simp add: boundedIds_def)
  moreover have "returnsMatch ?s'"
    unfolding returnsMatch_def
  proof
    fix j
    show "simReturn ?s' j = (case map_of (simulations ?s') j of None \<Rightarrow> None
         | Some x \<Rightarrow> expectedReturn (fst (snd x)) (outcomeOf ?s' j))"
    proof (cases "j = nextId s \<and> map_of (simulations s) (nextId s) = None")
      case True
      then have "simReturn s j = None" using m by (simp add: returnsMatch_def)
      then have c: "simReturn ?s' j = None" by (simp add: simReturn_def)
      have a: "map_of (simulations ?s') j = Some (r, sid, hold)"
        using True sims[of j] by presburger
      have b: "outcomeOf ?s' j = None"
        using True boundedIds_fresh[OF inv] unfolding oo by simp
      show ?thesis unfolding a b c by (simp add: expectedReturn_def)
    next
      case False
      have "map_of (simulations ?s') j = map_of (simulations s) j"
        using False sims[of j] by presburger
      moreover have "simReturn ?s' j = simReturn s j" by (simp add: simReturn_def)
      ultimately show ?thesis using m unfolding returnsMatch_def oo by presburger
    qed
  qed
  moreover have "releasesGranted ?s'"
    unfolding releasesGranted_def
  proof
    fix t assume "t \<in> set (releaseTimers ?s')"
    then have "t \<in> set (releaseTimers s)" by simp
    then obtain j h where j: "map_of (simulations s) j = Some (fst (snd t), snd (snd t), h)"
        "outcomeOf s j = Some Resolved"
      using g by (auto simp: releasesGranted_def)
    then have "map_of (simulations ?s') j = Some (fst (snd t), snd (snd t), h)"
      by (simp add: sims)
    then show "\<exists>i hold. map_of (simulations ?s') i = Some (fst (snd t), snd (snd t), hold) \<and>
                 outcomeOf ?s' i = Some Resolved"
      using j(2) unfolding oo by blast
  qed
  ultimately show ?thesis by (simp add: simInv_def)
qed

lemma simInv_unschedule:
  assumes inv: "simInv s"
  shows "simInv (s\<lparr>releaseTimers := remove1 tm (releaseTimers s)\<rparr>)"
proof -
  let ?s' = "s\<lparr>releaseTimers := remove1 tm (releaseTimers s)\<rparr>"
  have b: "boundedIds s" and m: "returnsMatch s" and g: "releasesGranted s"
    using inv by (simp_all add: simInv_def)
  have oo: "outcomeOf ?s' = outcomeOf s" by (rule ext) (simp add: outcomeOf_def)
  have "boundedIds ?s'" using b by (simp add: boundedIds_def)
  moreover have "returnsMatch ?s'"
    using m by (simp add: returnsMatch_def simReturn_def oo split: option.splits)
  moreover have "releasesGranted ?s'"
    using g unfolding releasesGranted_def oo by (auto dest: notin_set_remove1)
  ultimately show ?thesis by (simp add: simInv_def)
qed

lemma simInv_reachable: "reachable s \<Longrightarrow> simInv s"
proof (induction rule: reachable.induct)
  case r_new
  show ?case
    by (simp add: simInv_def boundedIds_def returnsMatch_def releasesGranted_def newManager_def
        simReturn_def)
next
  case (r_acquireRead s env resourceId sid)
  then show ?case by (simp add: acquireReadLock_def simInv_enqueue)
next
  case (r_acquireWrite s env resourceId sid)
  then show ?case by (simp add: acquireWriteLock_def simInv_enqueue)
next
  case (r_processQueue s env resourceId)
  then show ?case by (simp add: simInv_processQueue)
next
  case (r_release s env resourceId sid)
  then show ?case by (simp add: simInv_releaseLock)
next
  case (r_timeout s due resourceId request env)
  then have "reqId request < nextId s"
    by (fastforce simp: simInv_def boundedIds_def)
  then show ?case using r_timeout by (simp add: simInv_timeoutFire)
next
  case (r_forceUnlock s env resourceId)
  then show ?case by (simp add: simInv_forceUnlock)
next
  case (r_clearAll s env)
  then show ?case by (simp add: simInv_clearAll)
next
  case (r_simulateRead s env uuid resourceId holdMs)
  then show ?case
    by (simp add: simulateReadLock_def acquireReadLock_def Let_def simInv_enqueue simInv_register)
next
  case (r_simulateWrite s env uuid resourceId holdMs)
  then show ?case
    by (simp add: simulateWriteLock_def acquireWriteLock_def Let_def simInv_enqueue simInv_register)
next
  case (r_autoRelease s tm env)
  then show ?case by (cases tm) (simp add: autoRelease_eq simInv_releaseLock simInv_unschedule)
qed

lemma keeps_refl [simp]: "keeps s s"
  by (simp add: keeps_def)

lemma keeps_trans: "keeps s s1 \<Longrightarrow> keeps s1 s2 \<Longrightarrow> keeps s s2"
  by (simp add: keeps_def)


lemma keeps_prims [simp]:
  "keeps s (setRecord r rc s)" "keeps s (cleanup r s)" "keeps s (snd (log env m s))"
  "keeps s (logDetached env m s)" "keeps s (clearTimeout i s)" "keeps s (settle env i oc s)"
  by (simp_all add: keeps_def)

lemma keeps_requestResolve [simp]: "keeps s (requestResolve env r q s)"
  by (simp add: keeps_def requestResolve_def)

lemma keeps_requestReject [simp]: "keeps s (requestReject env q e s)"
  by (simp add: keeps_def requestReject_def)

lemma keeps_fold_resolve [simp]: "keeps s (fold (requestResolve env r) qs s)"
proof (induction qs arbitrary: s)
  case Nil
  show ?case by simp
next
  case (Cons q qs)
  show ?case using keeps_trans[OF keeps_requestResolve Cons.IH] by simp
qed

lemma keeps_fold_reject [simp]: "keeps s (fold (\<lambda>req. requestReject env req (f req)) qs s)"
proof (induction qs arbitrary: s)
  case Nil
  show ?case by simp
next
  case (Cons q qs)
  show ?case using keeps_trans[OF keeps_requestReject Cons.IH] by simp
qed

lemma keeps_processQueue [simp]: "keeps s (processQueue env r s)"
proof (cases "map_of (locks s) r")
  case None
  then show ?thesis by (simp add: processQueue_def)
next
  case (Some rc)
  show ?thesis
  proof (cases "queue rc")
    case Nil
    then show ?thesis using Some by (simp add: processQueue_def)
  next
    case (Cons nx rest)
    show ?thesis
    proof (cases "writer rc \<noteq> None \<or> (type nx = Write \<and> readers rc \<noteq> [])")
      case True
      then show ?thesis using Some Cons by (auto simp: processQueue_def)
    next
      case False
      then have w: "writer rc = None" by (cases "writer rc") auto
      show ?thesis
      proof (cases "type nx = Write")
        case True
        with False have e: "readers rc = []" by simp
        have "keeps s (requestResolve env r nx
            (setRecord r (rc\<lparr>queue := rest, writer := Some (sessionId nx, now env)\<rparr>) s))"
          by (rule keeps_trans[OF _ keeps_requestResolve]) simp
        then show ?thesis using Some Cons w True e by (simp add: processQueue_def)
      next
        case notW: False
        then have rd: "type nx = Read" by (cases "type nx") simp_all
        let ?s1 = "fold (requestResolve env r) (takeWhile isRead (queue rc)) s"
        have "keeps s ?s1" by simp
        moreover have "keeps ?s1 (processQueue env r s)"
          unfolding processQueue_readHead[OF Some w Cons rd] by simp
        ultimately show ?thesis by (rule keeps_trans)
      qed
    qed
  qed
qed

lemma enqueue_ids:
  "simulations (enqueue env r sid t tmo s) = simulations s \<and>
   Suc (nextId s) \<le> nextId (enqueue env r sid t tmo s)"
proof -
  obtain rc s1 where g: "getRecord r s = (rc, s1)" by (cases "getRecord r s") auto
  let ?rq = "\<lparr>type = t, sessionId = sid, requestedAt = now env, reqId = nextId s\<rparr>"
  let ?s2 = "s1\<lparr>nextId := Suc (nextId s), timers := timers s1 @ [(now env + tmo, r, ?rq)]\<rparr>"
  let ?s4 = "logDetached env (queuedMessage t r sid) (setRecord r (rc\<lparr>queue := queue rc @ [?rq]\<rparr>) ?s2)"
  have s1: "simulations s1 = simulations s"
    using g by (auto simp: getRecord_def split: option.splits)
  have "simulations ?s4 = simulations s" "nextId ?s4 = Suc (nextId s)"
    using s1 by simp_all
  moreover have "keeps ?s4 (processQueue env r ?s4)" by simp
  ultimately have "simulations (processQueue env r ?s4) = simulations s \<and>
      Suc (nextId s) \<le> nextId (processQueue env r ?s4)"
    unfolding keeps_def by presburger
  then show ?thesis by (simp add: enqueue_def Let_def g)
qed

lemma keeps_enqueue [simp]: "keeps s (enqueue env r sid t tmo s)"
  using enqueue_ids[of env r sid t tmo s] by (simp add: keeps_def)

lemma keeps_timeoutFire [simp]: "keeps s (timeoutFire env r rq s)"
proof -
  define s0 where "s0 = clearTimeout (reqId rq) s"
  define s1 where "s1 = (case map_of (locks s0) r of None \<Rightarrow> s0
     | Some record \<Rightarrow> setRecord r (record\<lparr>queue := filter (\<lambda>req. reqId req \<noteq> reqId rq) (queue record)\<rparr>) s0)"
  define s3 where "s3 = cleanup r (logDetached env (timeoutMessage (type rq) r (sessionId rq))
           (settle env (reqId rq) (Rejected (TimeoutError (type rq) r)) s1))"
  have "keeps s s0" by (simp add: s0_def)
  moreover have "keeps s0 s1" by (simp add: s1_def split: option.splits)
  moreover have "keeps s1 s3" by (simp add: s3_def keeps_def)
  moreover have "keeps s3 (processQueue env r s3)" by simp
  ultimately have "keeps s (processQueue env r s3)" by (blast intro: keeps_trans)
  then show ?thesis unfolding timeoutFire_def Let_def s3_def s1_def s0_def .
qed

lemma keeps_releaseLock [simp]: "keeps s (snd (releaseLock env r sid s))"
proof (cases "map_of (locks s) r")
  case None
  then show ?thesis by (simp add: releaseLock_absent)
next
  case (Some rc)
  have k1: "keeps s (releaseCancel env r sid rc s)"
    unfolding releaseCancel_def by (rule keeps_trans[OF _ keeps_fold_reject]) simp
  have fin: "\<And>s2. keeps s s2 \<Longrightarrow> keeps s (cleanup r (processQueue env r s2))"
    by (blast intro: keeps_trans keeps_processQueue keeps_prims(2))
  show ?thesis
  proof (cases "releaseHeld sid rc")
    case False
    then show ?thesis by (simp add: releaseLock_present[OF Some] fin[OF k1])
  next
    case True
    obtain res s2 where l: "log env (releasedMessage r sid) (releaseCancel env r sid rc s) = (res, s2)"
      by (cases "log env (releasedMessage r sid) (releaseCancel env r sid rc s)") auto
    have "keeps (releaseCancel env r sid rc s) s2"
      using keeps_prims(3)[of "releaseCancel env r sid rc s" env "releasedMessage r sid"] l by simp
    then have "keeps s s2" using k1 by (blast intro: keeps_trans)
    then show ?thesis
      using True l fin by (cases res) (simp_all add: releaseLock_present[OF Some])
  qed
qed

lemma keeps_forceUnlock [simp]: "keeps s (snd (forceUnlock env r s))"
proof (cases "map_of (locks s) r")
  case None
  then show ?thesis by (simp add: forceUnlock_absent)
next
  case (Some rc)
  have "keeps s (fold (\<lambda>req. requestReject env req (ForceUnlockError (sessionId req))) (queue rc)
          (setRecord r (rc\<lparr>writer := None, readers := []\<rparr>) s))"
    by (rule keeps_trans[OF _ keeps_fold_reject]) simp
  then have k3: "keeps s (forceFlush env r rc s)"
    unfolding forceFlush_def by (rule keeps_trans) simp
  obtain res s4 where l: "log env (forceUnlockMessage r (forceSessions rc)) (forceFlush env r rc s) = (res, s4)"
    by (cases "log env (forceUnlockMessage r (forceSessions rc)) (forceFlush env r rc s)") auto
  have "keeps (forceFlush env r rc s) s4"
    using keeps_prims(3)[of "forceFlush env r rc s" env "forceUnlockMessage r (forceSessions rc)"] l by simp
  then have k4: "keeps s s4" using k3 by (blast intro: keeps_trans)
  then have "keeps s (cleanup r s4)" by (rule keeps_trans) simp
  then show ?thesis
    using l k4 by (cases res) (simp_all add: forceUnlock_present[OF Some])
qed

lemma keeps_forceUnlockAll [simp]: "keeps s (snd (forceUnlockAll env rs s))"
proof (induction rs arbitrary: s)
  case Nil
  show ?case by simp
next
  case (Cons r rs)
  obtain res s' where f: "forceUnlock env r s = (res, s')" by (cases "forceUnlock env r s") auto
  with keeps_forceUnlock[of s env r] have k: "keeps s s'" by simp
  show ?case using f k keeps_trans[OF k Cons.IH[of s']] by (cases res) simp_all
qed

lemma keeps_clearAll [simp]: "keeps s (snd (clearAll env s))"
proof -
  obtain res s' where f: "forceUnlockAll env (map fst (locks s)) s = (res, s')"
    by (cases "forceUnlockAll env (map fst (locks s)) s") auto
  with keeps_forceUnlockAll[of s env "map fst (locks s)"] have k: "keeps s s'" by simp
  have "keeps s (snd (log env ''CLEAR_ALL invoked'' s'))"
    by (rule keeps_trans[OF k]) simp
  then show ?thesis using f k by (cases res) (simp_all add: clearAll_def)
qed




section \<open>Live runs\<close>

text \<open>
  A process that is alive has created the log directory as soon as its table has an
  entry: every acquisition logs its QUEUED line without waiting, and a failure there
  ends the process. From then on \<open>log\<close> never rejects, so the awaited calls in
  \<open>releaseLock\<close> and \<open>forceUnlock\<close> return, and the lock table stays tidy: every entry is
  in use and the scheduler has nothing left to grant on it (\<open>tidy_reachable\<close>). Hence a
  release by a session that holds and queues nothing changes nothing
  (\<open>release_without_hold\<close>), a release in general cancels, logs and reschedules
  (\<open>releaseLock_effect\<close>), \<open>forceUnlock\<close> removes the entry, rejects the queued requests
  and logs the event (\<open>forceUnlock_effect\<close>), and a timeout removes its request, rejects
  its promise and logs the event before the scheduler runs (\<open>timeoutFire_effect\<close>).
\<close>

lemma promiseStep_refl [simp]: "promiseStep env s s"
  by (simp add: promiseStep_def)

lemma promiseStep_trans: "promiseStep env s s1 \<Longrightarrow> promiseStep env s1 s2 \<Longrightarrow> promiseStep env s s2"
  by (auto simp: promiseStep_def)

lemma promiseStep_same:
  "ensureLogDirPromise s' = ensureLogDirPromise s \<Longrightarrow> terminated s' = terminated s \<Longrightarrow> promiseStep env s s'"
  by (simp add: promiseStep_def)

lemma promiseStep_ready: "promiseStep env s s' \<Longrightarrow> logReady s \<Longrightarrow> logReady s'"
  by (auto simp: promiseStep_def logReady_def)

lemma promiseStep_alive: "promiseStep env s s' \<Longrightarrow> \<not> terminated s' \<Longrightarrow> \<not> terminated s"
  by (auto simp: promiseStep_def)

lemma promise_prims [simp]:
  "ensureLogDirPromise (setRecord r rc s) = ensureLogDirPromise s"
  "ensureLogDirPromise (cleanup r s) = ensureLogDirPromise s"
  "ensureLogDirPromise (clearTimeout i s) = ensureLogDirPromise s"
  "ensureLogDirPromise (settle env i oc s) = ensureLogDirPromise s"
  "terminated (setRecord r rc s) = terminated s"
  "terminated (cleanup r s) = terminated s"
  "terminated (clearTimeout i s) = terminated s"
  "terminated (settle env i oc s) = terminated s"
  by (simp_all add: setRecord_def cleanup_def clearTimeout_def settle_def simulateContinuation_def
      split: option.splits prod.splits Outcome.splits)

lemma promiseStep_log [simp]: "promiseStep env s (snd (log env m s))"
  by (simp add: promiseStep_def log_def ensureLogDir_def pushLine_def Let_def split: option.splits)

lemma promiseStep_logDetached [simp]: "promiseStep env s (logDetached env m s)"
  using promiseStep_log[of env s m] by (simp add: logDetached_eq promiseStep_def)

lemma promiseStep_requestResolve [simp]: "promiseStep env s (requestResolve env r q s)"
proof -
  have "promiseStep env (clearTimeout (reqId q) s)
      (logDetached env (acquiredMessage (type q) r (sessionId q)) (clearTimeout (reqId q) s))"
    by simp
  then show ?thesis by (simp add: requestResolve_def promiseStep_def)
qed

lemma promise_requestReject [simp]:
  "ensureLogDirPromise (requestReject env q e s) = ensureLogDirPromise s"
  "terminated (requestReject env q e s) = terminated s"
  by (simp_all add: requestReject_def)

lemma promise_fold_reject [simp]:
  "ensureLogDirPromise (fold (\<lambda>req. requestReject env req (f req)) qs s) = ensureLogDirPromise s"
  "terminated (fold (\<lambda>req. requestReject env req (f req)) qs s) = terminated s"
  by (induction qs arbitrary: s) simp_all

lemma promiseStep_fold_resolve [simp]: "promiseStep env s (fold (requestResolve env r) qs s)"
proof (induction qs arbitrary: s)
  case Nil
  show ?case by simp
next
  case (Cons q qs)
  show ?case using promiseStep_trans[OF promiseStep_requestResolve Cons.IH] by simp
qed

lemma log_ok: "logReady s \<Longrightarrow> fst (log env m s) = Inr ()"
  by (simp add: log_def ensureLogDir_def logReady_def Let_def)

lemma log_ready: "fst (log env m s) = Inr () \<Longrightarrow> logReady (snd (log env m s))"
  by (auto simp: log_def ensureLogDir_def logReady_def pushLine_def Let_def split: option.splits if_splits)

lemma logDetached_alive: "\<not> terminated (logDetached env m s) \<Longrightarrow> logReady (logDetached env m s)"
  using log_ready[of env m s] by (simp add: logDetached_eq logReady_def)

lemma promiseStep_processQueue [simp]: "promiseStep env s (processQueue env r s)"
proof (cases "map_of (locks s) r")
  case None
  then show ?thesis by (simp add: processQueue_def)
next
  case (Some rc)
  show ?thesis
  proof (cases "queue rc")
    case Nil
    then show ?thesis using Some by (simp add: processQueue_def promiseStep_same)
  next
    case (Cons nx rest)
    show ?thesis
    proof (cases "writer rc \<noteq> None \<or> (type nx = Write \<and> readers rc \<noteq> [])")
      case True
      then show ?thesis using Some Cons by (auto simp: processQueue_def)
    next
      case False
      then have w: "writer rc = None" by (cases "writer rc") auto
      show ?thesis
      proof (cases "type nx = Write")
        case True
        with False have e: "readers rc = []" by simp
        let ?s1 = "setRecord r (rc\<lparr>queue := rest, writer := Some (sessionId nx, now env)\<rparr>) s"
        have "promiseStep env s ?s1" by (simp add: promiseStep_same)
        moreover have "promiseStep env ?s1 (requestResolve env r nx ?s1)" by simp
        ultimately have "promiseStep env s (requestResolve env r nx ?s1)" by (rule promiseStep_trans)
        then show ?thesis using Some Cons w True e by (simp add: processQueue_def)
      next
        case notW: False
        then have rd: "type nx = Read" by (cases "type nx") simp_all
        let ?s1 = "fold (requestResolve env r) (takeWhile isRead (queue rc)) s"
        have "promiseStep env s ?s1" by simp
        moreover have "promiseStep env ?s1 (processQueue env r s)"
          unfolding processQueue_readHead[OF Some w Cons rd] by (simp add: promiseStep_same)
        ultimately show ?thesis by (rule promiseStep_trans)
      qed
    qed
  qed
qed

lemma promiseStep_enqueue [simp]: "promiseStep env s (enqueue env r sid t tmo s)"
proof -
  obtain rc s1 where g: "getRecord r s = (rc, s1)" by (cases "getRecord r s") auto
  let ?rq = "\<lparr>type = t, sessionId = sid, requestedAt = now env, reqId = nextId s\<rparr>"
  let ?s3 = "setRecord r (rc\<lparr>queue := queue rc @ [?rq]\<rparr>)
      (s1\<lparr>nextId := Suc (nextId s), timers := timers s1 @ [(now env + tmo, r, ?rq)]\<rparr>)"
  let ?s4 = "logDetached env (queuedMessage t r sid) ?s3"
  have "ensureLogDirPromise s1 = ensureLogDirPromise s \<and> terminated s1 = terminated s"
    using g by (auto simp: getRecord_def split: option.splits)
  then have "promiseStep env s ?s3" by (simp add: promiseStep_same)
  moreover have "promiseStep env ?s3 ?s4" by simp
  moreover have "promiseStep env ?s4 (processQueue env r ?s4)" by simp
  ultimately have "promiseStep env s (processQueue env r ?s4)" by (blast intro: promiseStep_trans)
  then show ?thesis by (simp add: enqueue_def Let_def g)
qed

lemma promiseStep_timeoutFire [simp]: "promiseStep env s (timeoutFire env r rq s)"
proof -
  define s0 where "s0 = clearTimeout (reqId rq) s"
  define s1 where "s1 = (case map_of (locks s0) r of None \<Rightarrow> s0
     | Some record \<Rightarrow> setRecord r (record\<lparr>queue := filter (\<lambda>req. reqId req \<noteq> reqId rq) (queue record)\<rparr>) s0)"
  define s2 where "s2 = settle env (reqId rq) (Rejected (TimeoutError (type rq) r)) s1"
  define s3 where "s3 = cleanup r (logDetached env (timeoutMessage (type rq) r (sessionId rq)) s2)"
  have "ensureLogDirPromise s2 = ensureLogDirPromise s" and "terminated s2 = terminated s"
    by (simp_all add: s2_def s1_def s0_def split: option.splits)
  then have "promiseStep env s s2" by (rule promiseStep_same)
  moreover have "promiseStep env s2 (logDetached env (timeoutMessage (type rq) r (sessionId rq)) s2)"
    by simp
  moreover have "promiseStep env (logDetached env (timeoutMessage (type rq) r (sessionId rq)) s2) s3"
    by (simp add: s3_def promiseStep_same)
  moreover have "promiseStep env s3 (processQueue env r s3)" by simp
  ultimately have "promiseStep env s (processQueue env r s3)" by (blast intro: promiseStep_trans)
  then show ?thesis unfolding timeoutFire_def Let_def s3_def s2_def s1_def s0_def .
qed

lemma promiseStep_releaseLock [simp]: "promiseStep env s (snd (releaseLock env r sid s))"
proof (cases "map_of (locks s) r")
  case None
  then show ?thesis by (simp add: releaseLock_absent)
next
  case (Some rc)
  have k1: "promiseStep env s (releaseCancel env r sid rc s)"
    unfolding releaseCancel_def by (simp add: promiseStep_same)
  have fin: "\<And>s2. promiseStep env s s2 \<Longrightarrow> promiseStep env s (cleanup r (processQueue env r s2))"
  proof -
    fix s2 assume a: "promiseStep env s s2"
    have "promiseStep env (processQueue env r s2) (cleanup r (processQueue env r s2))"
      by (simp add: promiseStep_same)
    with a promiseStep_processQueue[of env s2 r] show "promiseStep env s (cleanup r (processQueue env r s2))"
      by (blast intro: promiseStep_trans)
  qed
  show ?thesis
  proof (cases "releaseHeld sid rc")
    case False
    then show ?thesis by (simp add: releaseLock_present[OF Some] fin[OF k1])
  next
    case True
    obtain res s2 where l: "log env (releasedMessage r sid) (releaseCancel env r sid rc s) = (res, s2)"
      by (cases "log env (releasedMessage r sid) (releaseCancel env r sid rc s)") auto
    have "promiseStep env (releaseCancel env r sid rc s) s2"
      using promiseStep_log[of env "releaseCancel env r sid rc s" "releasedMessage r sid"] l by simp
    then have "promiseStep env s s2" using k1 by (blast intro: promiseStep_trans)
    then show ?thesis
      using True l fin by (cases res) (simp_all add: releaseLock_present[OF Some])
  qed
qed

lemma promiseStep_forceUnlock [simp]: "promiseStep env s (snd (forceUnlock env r s))"
proof (cases "map_of (locks s) r")
  case None
  then show ?thesis by (simp add: forceUnlock_absent)
next
  case (Some rc)
  have k3: "promiseStep env s (forceFlush env r rc s)"
    unfolding forceFlush_def by (simp add: promiseStep_same)
  obtain res s4 where l: "log env (forceUnlockMessage r (forceSessions rc)) (forceFlush env r rc s) = (res, s4)"
    by (cases "log env (forceUnlockMessage r (forceSessions rc)) (forceFlush env r rc s)") auto
  have "promiseStep env (forceFlush env r rc s) s4"
    using promiseStep_log[of env "forceFlush env r rc s" "forceUnlockMessage r (forceSessions rc)"] l by simp
  then have k4: "promiseStep env s s4" using k3 by (blast intro: promiseStep_trans)
  moreover have "promiseStep env s4 (cleanup r s4)" by (simp add: promiseStep_same)
  ultimately have "promiseStep env s (cleanup r s4)" by (rule promiseStep_trans)
  then show ?thesis
    using l k4 by (cases res) (simp_all add: forceUnlock_present[OF Some])
qed

lemma promiseStep_forceUnlockAll [simp]: "promiseStep env s (snd (forceUnlockAll env rs s))"
proof (induction rs arbitrary: s)
  case Nil
  show ?case by simp
next
  case (Cons r rs)
  obtain res s' where f: "forceUnlock env r s = (res, s')" by (cases "forceUnlock env r s") auto
  with promiseStep_forceUnlock[of env s r] have k: "promiseStep env s s'" by simp
  show ?case using f k promiseStep_trans[OF k Cons.IH[of s']] by (cases res) simp_all
qed

lemma promiseStep_clearAll [simp]: "promiseStep env s (snd (clearAll env s))"
proof -
  obtain res s' where f: "forceUnlockAll env (map fst (locks s)) s = (res, s')"
    by (cases "forceUnlockAll env (map fst (locks s)) s") auto
  with promiseStep_forceUnlockAll[of env s "map fst (locks s)"] have k: "promiseStep env s s'" by simp
  have "promiseStep env s (snd (log env ''CLEAR_ALL invoked'' s'))"
    by (rule promiseStep_trans[OF k]) simp
  then show ?thesis using f k by (cases res) (simp_all add: clearAll_def)
qed

lemma map_of_mapDelete [simp]: "map_of (mapDelete r m) k = (if k = r then None else map_of m k)"
  by (induction m) (auto simp: mapDelete_def)

lemma lookup_cleanup:
  "map_of (locks (cleanup r s)) k =
     (if k = r \<and> (\<exists>rc. map_of (locks s) r = Some rc \<and> idle rc) then None else map_of (locks s) k)"
  by (auto simp: cleanup_def idle_def split: option.splits)

lemma mapSet_nonempty [simp]: "mapSet k v m \<noteq> []"
  by (cases m) (auto simp: mapSet_def split: option.splits)

lemma fold_mapSet_nonempty: "qs \<noteq> [] \<Longrightarrow> fold (\<lambda>q. mapSet (f q) v) qs rds \<noteq> []"
proof (induction qs arbitrary: rds)
  case Nil
  then show ?case by simp
next
  case (Cons q qs)
  show ?case
  proof (cases qs)
    case Nil
    then show ?thesis by simp
  next
    case (Cons a as)
    then show ?thesis using Cons.IH by simp
  qed
qed

lemma quietExcept_weaken: "allQuiet s \<Longrightarrow> quietExcept r s"
  by (simp add: allQuiet_def quietExcept_def)

lemma quietExcept_same_others:
  "quietExcept r s \<Longrightarrow> (\<And>k. k \<noteq> r \<Longrightarrow> map_of (locks s') k = map_of (locks s) k) \<Longrightarrow> quietExcept r s'"
  by (simp add: quietExcept_def)

lemma quietExcept_cleanup: "quietExcept r s \<Longrightarrow> quietExcept r (cleanup r s)"
  by (rule quietExcept_same_others) (simp_all add: lookup_cleanup)

lemma allQuiet_cleanup_keep: "allQuiet s \<Longrightarrow> allQuiet (cleanup r s)"
  unfolding allQuiet_def by (auto simp: lookup_cleanup split: if_splits)

lemma allQuiet_cleanup_idle:
  "quietExcept r s \<Longrightarrow> map_of (locks s) r = Some rc \<Longrightarrow> idle rc \<Longrightarrow> allQuiet (cleanup r s)"
  unfolding allQuiet_def quietExcept_def by (auto simp: lookup_cleanup split: if_splits)

lemma locks_fold_requestResolve [simp]: "locks (fold (requestResolve env r) qs s) = locks s"
  by (induction qs arbitrary: s) simp_all

lemma lookup_processQueue_other:
  assumes "k \<noteq> r"
  shows "map_of (locks (processQueue env r s)) k = map_of (locks s) k"
proof (cases "map_of (locks s) r")
  case None
  then show ?thesis by (simp add: processQueue_def)
next
  case (Some rc)
  show ?thesis
  proof (cases "queue rc")
    case Nil
    then show ?thesis using Some assms by (simp add: processQueue_def lookup_cleanup)
  next
    case (Cons nx rest)
    show ?thesis
    proof (cases "writer rc \<noteq> None \<or> (type nx = Write \<and> readers rc \<noteq> [])")
      case True
      then show ?thesis using Some Cons by (auto simp: processQueue_def)
    next
      case False
      then have w: "writer rc = None" by (cases "writer rc") auto
      show ?thesis
      proof (cases "type nx = Write")
        case True
        with False have e: "readers rc = []" by simp
        show ?thesis using Some Cons w True e assms by (simp add: processQueue_def)
      next
        case notW: False
        then have rd: "type nx = Read" by (cases "type nx") simp_all
        show ?thesis
          unfolding processQueue_readHead[OF Some w Cons rd] using assms by simp
      qed
    qed
  qed
qed

lemma blocked_iff:
  "blocked rc = (queue rc = [] \<or> writer rc \<noteq> None \<or> (type (hd (queue rc)) = Write \<and> readers rc \<noteq> []))"
  by (simp add: blocked_def split: list.splits)

lemma lookup_processQueue_same:
  assumes "map_of (locks (processQueue env r s)) r = Some rc'"
  shows "quiet rc'"
proof (cases "map_of (locks s) r")
  case None
  then show ?thesis using assms by (simp add: processQueue_def)
next
  case (Some rc)
  show ?thesis
  proof (cases "queue rc")
    case Nil
    then have "rc' = rc \<and> \<not> idle rc" using Some assms
      by (auto simp: processQueue_def lookup_cleanup split: if_splits)
    then show ?thesis using Nil by (simp add: quiet_def blocked_def)
  next
    case (Cons nx rest)
    show ?thesis
    proof (cases "writer rc \<noteq> None \<or> (type nx = Write \<and> readers rc \<noteq> [])")
      case True
      then have "processQueue env r s = s" using Some Cons by (auto simp: processQueue_def)
      then have "rc' = rc" using assms Some by simp
      then show ?thesis using True Cons by (auto simp: quiet_def idle_def blocked_def)
    next
      case False
      then have w: "writer rc = None" by (cases "writer rc") auto
      show ?thesis
      proof (cases "type nx = Write")
        case True
        with False have e: "readers rc = []" by simp
        have "processQueue env r s = requestResolve env r nx
            (setRecord r (rc\<lparr>queue := rest, writer := Some (sessionId nx, now env)\<rparr>) s)"
          using Some Cons w True e by (simp add: processQueue_def)
        then have "rc' = rc\<lparr>queue := rest, writer := Some (sessionId nx, now env)\<rparr>"
          using assms by simp
        then show ?thesis by (simp add: quiet_def idle_def blocked_def split: list.splits)
      next
        case notW: False
        then have rd: "type nx = Read" by (cases "type nx") simp_all
        let ?post = "dropWhile isRead (queue rc)"
        let ?rds = "fold (\<lambda>q. mapSet (sessionId q) (now env)) (takeWhile isRead (queue rc)) (readers rc)"
        have "takeWhile isRead (queue rc) \<noteq> []" using Cons rd by (simp add: isRead_def)
        then have ne: "?rds \<noteq> []" by (rule fold_mapSet_nonempty)
        have rc': "rc' = rc\<lparr>queue := ?post, readers := ?rds\<rparr>"
          using assms unfolding processQueue_readHead[OF Some w Cons rd] by simp
        have "blocked rc'"
        proof (cases ?post)
          case Nil
          then show ?thesis by (simp add: rc' blocked_iff)
        next
          case (Cons a as)
          then have "\<not> isRead a" by (metis hd_dropWhile list.sel(1) list.distinct(1))
          then have "type a = Write" by (cases "type a") (simp_all add: isRead_def)
          moreover have "hd ?post = a" using Cons by simp
          ultimately show ?thesis using ne by (simp add: rc' blocked_iff)
        qed
        then show ?thesis using ne by (simp add: quiet_def idle_def rc')
      qed
    qed
  qed
qed

lemma allQuiet_processQueue: "quietExcept r s \<Longrightarrow> allQuiet (processQueue env r s)"
  unfolding allQuiet_def quietExcept_def
  by (metis lookup_processQueue_other lookup_processQueue_same)

lemma quietExcept_setRecord: "quietExcept r s \<Longrightarrow> quietExcept r (setRecord r rc s)"
  by (rule quietExcept_same_others) simp_all

lemma quietExcept_locks: "quietExcept r s \<Longrightarrow> locks s' = locks s \<Longrightarrow> quietExcept r s'"
  by (simp add: quietExcept_def)

lemma allQuiet_enqueue:
  assumes "allQuiet s"
  shows "allQuiet (enqueue env r sid t tmo s)"
proof -
  obtain rc s1 where g: "getRecord r s = (rc, s1)" by (cases "getRecord r s") auto
  let ?rq = "\<lparr>type = t, sessionId = sid, requestedAt = now env, reqId = nextId s\<rparr>"
  let ?s2 = "s1\<lparr>nextId := Suc (nextId s), timers := timers s1 @ [(now env + tmo, r, ?rq)]\<rparr>"
  let ?s4 = "logDetached env (queuedMessage t r sid) (setRecord r (rc\<lparr>queue := queue rc @ [?rq]\<rparr>) ?s2)"
  have "\<And>k. k \<noteq> r \<Longrightarrow> map_of (locks s1) k = map_of (locks s) k"
    using g by (auto simp: getRecord_def map_add_def split: option.splits)
  then have "quietExcept r ?s2"
    using assms by (simp add: quietExcept_def allQuiet_def)
  then have "quietExcept r (setRecord r (rc\<lparr>queue := queue rc @ [?rq]\<rparr>) ?s2)"
    by (rule quietExcept_setRecord)
  then have "quietExcept r ?s4"
    by (rule quietExcept_locks) simp
  then have "allQuiet (processQueue env r ?s4)" by (rule allQuiet_processQueue)
  then show ?thesis by (simp add: enqueue_def Let_def g)
qed

lemma allQuiet_timeoutFire:
  assumes "allQuiet s"
  shows "allQuiet (timeoutFire env r rq s)"
proof -
  define s0 where "s0 = clearTimeout (reqId rq) s"
  define s1 where "s1 = (case map_of (locks s0) r of None \<Rightarrow> s0
     | Some record \<Rightarrow> setRecord r (record\<lparr>queue := filter (\<lambda>req. reqId req \<noteq> reqId rq) (queue record)\<rparr>) s0)"
  define s3 where "s3 = logDetached env (timeoutMessage (type rq) r (sessionId rq))
           (settle env (reqId rq) (Rejected (TimeoutError (type rq) r)) s1)"
  have "quietExcept r s0" using assms by (simp add: s0_def quietExcept_def allQuiet_def)
  then have "quietExcept r s1"
    by (auto simp: s1_def split: option.splits intro: quietExcept_setRecord)
  then have "quietExcept r s3" by (rule quietExcept_locks) (simp add: s3_def)
  then have "quietExcept r (cleanup r s3)" by (rule quietExcept_cleanup)
  then have "allQuiet (processQueue env r (cleanup r s3))"
    by (rule allQuiet_processQueue)
  then show ?thesis unfolding timeoutFire_def Let_def s3_def s1_def s0_def .
qed

lemma lookup_nonempty: "map_of (locks s) r = Some rc \<Longrightarrow> locks s \<noteq> []"
  by auto

lemma allQuiet_releaseLock:
  assumes "allQuiet s" and "map_of (locks s) r \<noteq> None \<longrightarrow> logReady s"
  shows "allQuiet (snd (releaseLock env r sid s)) \<and> fst (releaseLock env r sid s) = Inr ()"
proof (cases "map_of (locks s) r")
  case None
  then show ?thesis using assms by (simp add: releaseLock_absent)
next
  case (Some rc)
  have rdy: "logReady s" using assms(2) Some by simp
  have "quietExcept r (setRecord r (releaseRecord sid rc) s)"
    using assms(1) by (intro quietExcept_setRecord quietExcept_weaken)
  then have k1: "quietExcept r (releaseCancel env r sid rc s)"
    unfolding releaseCancel_def by (rule quietExcept_locks) simp
  have fin: "\<And>s2. quietExcept r s2 \<Longrightarrow> allQuiet (cleanup r (processQueue env r s2))"
    by (intro allQuiet_cleanup_keep allQuiet_processQueue)
  show ?thesis
  proof (cases "releaseHeld sid rc")
    case False
    then show ?thesis by (simp add: releaseLock_present[OF Some] fin[OF k1])
  next
    case True
    obtain res s2 where l: "log env (releasedMessage r sid) (releaseCancel env r sid rc s) = (res, s2)"
      by (cases "log env (releasedMessage r sid) (releaseCancel env r sid rc s)") auto
    have "logReady (releaseCancel env r sid rc s)"
      using rdy by (simp add: logReady_def releaseCancel_def)
    from log_ok[OF this, of env "releasedMessage r sid"] l have res: "res = Inr ()" by simp
    have "locks s2 = locks (releaseCancel env r sid rc s)"
      using locks_log[of env "releasedMessage r sid" "releaseCancel env r sid rc s"] l by simp
    with k1 have "quietExcept r s2" by (rule quietExcept_locks)
    then show ?thesis
      using True l res fin by (simp add: releaseLock_present[OF Some])
  qed
qed

lemma lookup_forceFlush [simp]:
  "map_of (locks (forceFlush env r rc s)) r = Some \<lparr>readers = [], writer = None, queue = []\<rparr>"
  by (simp add: forceFlush_def)

lemma allQuiet_forceUnlock:
  assumes "allQuiet s" and "map_of (locks s) r \<noteq> None \<longrightarrow> logReady s"
  shows "allQuiet (snd (forceUnlock env r s)) \<and> fst (forceUnlock env r s) = Inr ()"
proof (cases "map_of (locks s) r")
  case None
  then show ?thesis using assms by (simp add: forceUnlock_absent)
next
  case (Some rc)
  have rdy: "logReady s" using assms(2) Some by simp
  have "quietExcept r (forceFlush env r rc s)"
    using quietExcept_weaken[OF assms(1), of r]
    by (rule quietExcept_same_others) (simp add: forceFlush_def)
  obtain res s4 where l: "log env (forceUnlockMessage r (forceSessions rc)) (forceFlush env r rc s) = (res, s4)"
    by (cases "log env (forceUnlockMessage r (forceSessions rc)) (forceFlush env r rc s)") auto
  have "logReady (forceFlush env r rc s)"
    using rdy by (simp add: logReady_def forceFlush_def)
  from log_ok[OF this, of env "forceUnlockMessage r (forceSessions rc)"] l have res: "res = Inr ()" by simp
  have "locks s4 = locks (forceFlush env r rc s)"
    using locks_log[of env "forceUnlockMessage r (forceSessions rc)" "forceFlush env r rc s"] l by simp
  with \<open>quietExcept r (forceFlush env r rc s)\<close> have "quietExcept r s4" by (rule quietExcept_locks)
  moreover have "map_of (locks s4) r = Some \<lparr>readers = [], writer = None, queue = []\<rparr>"
    using \<open>locks s4 = locks (forceFlush env r rc s)\<close> by simp
  ultimately have "allQuiet (cleanup r s4)"
    by (rule allQuiet_cleanup_idle) (simp add: idle_def)
  then show ?thesis using l res by (simp add: forceUnlock_present[OF Some])
qed

lemma tidy_terminated [simp]: "tidy (s\<lparr>terminated := b\<rparr>) = tidy s"
  by (simp add: tidy_def allQuiet_def logReady_def)

lemma tidy_lookup: "tidy s \<Longrightarrow> map_of (locks s) r \<noteq> None \<longrightarrow> logReady s"
  by (auto simp: tidy_def)

lemma tidy_after:
  assumes "tidy s" and "allQuiet s'" and "promiseStep env s s'" and "locks s = [] \<Longrightarrow> locks s' = []"
  shows "tidy s'"
  using assms promiseStep_ready[OF assms(3)] by (auto simp: tidy_def)

lemma tidy_alive:
  assumes "allQuiet s'" and "logReady s'"
  shows "tidy s'"
  using assms by (simp add: tidy_def)

lemma tidy_processQueue: "tidy s \<Longrightarrow> tidy (processQueue env r s)"
proof (rule tidy_after[where env = env])
  assume "tidy s"
  then show "allQuiet (processQueue env r s)"
    by (simp add: tidy_def allQuiet_processQueue quietExcept_weaken)
  show "promiseStep env s (processQueue env r s)" by simp
  show "locks s = [] \<Longrightarrow> locks (processQueue env r s) = []" by (simp add: processQueue_def)
qed

lemma tidy_releaseLock:
  assumes "tidy s"
  shows "tidy (snd (releaseLock env r sid s)) \<and> fst (releaseLock env r sid s) = Inr ()"
proof -
  have a: "allQuiet s" using assms by (simp add: tidy_def)
  note q = allQuiet_releaseLock[where r = r and env = env and sid = sid, OF a tidy_lookup[OF assms]]
  have "tidy (snd (releaseLock env r sid s))"
  proof (rule tidy_after[OF assms, where env = env])
    show "allQuiet (snd (releaseLock env r sid s))" using q by simp
    show "promiseStep env s (snd (releaseLock env r sid s))" by simp
    show "locks s = [] \<Longrightarrow> locks (snd (releaseLock env r sid s)) = []"
      by (simp add: releaseLock_absent)
  qed
  then show ?thesis using q by simp
qed

lemma tidy_forceUnlock:
  assumes "tidy s"
  shows "tidy (snd (forceUnlock env r s)) \<and> fst (forceUnlock env r s) = Inr ()"
proof -
  have a: "allQuiet s" using assms by (simp add: tidy_def)
  note q = allQuiet_forceUnlock[where r = r and env = env, OF a tidy_lookup[OF assms]]
  have "tidy (snd (forceUnlock env r s))"
  proof (rule tidy_after[OF assms, where env = env])
    show "allQuiet (snd (forceUnlock env r s))" using q by simp
    show "promiseStep env s (snd (forceUnlock env r s))" by simp
    show "locks s = [] \<Longrightarrow> locks (snd (forceUnlock env r s)) = []"
      by (simp add: forceUnlock_absent)
  qed
  then show ?thesis using q by simp
qed

lemma tidy_forceUnlockAll:
  "tidy s \<Longrightarrow> tidy (snd (forceUnlockAll env rs s)) \<and> fst (forceUnlockAll env rs s) = Inr ()"
proof (induction rs arbitrary: s)
  case Nil
  then show ?case by simp
next
  case (Cons r rs)
  obtain res s' where f: "forceUnlock env r s = (res, s')" by (cases "forceUnlock env r s") auto
  from tidy_forceUnlock[OF Cons.prems, where env = env and r = r] f have n: "tidy s'" and res: "res = Inr ()"
    by simp_all
  from Cons.IH[OF n] show ?case using f res by simp
qed

lemma tidy_clearAll:
  assumes "tidy s"
  shows "tidy (snd (clearAll env s))"
proof -
  obtain res s' where f: "forceUnlockAll env (map fst (locks s)) s = (res, s')"
    by (cases "forceUnlockAll env (map fst (locks s)) s") auto
  from tidy_forceUnlockAll[OF assms, where env = env and rs = "map fst (locks s)"] f
  have n: "tidy s'" and res: "res = Inr ()" by simp_all
  have "tidy (snd (log env ''CLEAR_ALL invoked'' s'))"
  proof (rule tidy_after[OF n, where env = env])
    show "allQuiet (snd (log env ''CLEAR_ALL invoked'' s'))" using n by (simp add: tidy_def allQuiet_def)
    show "promiseStep env s' (snd (log env ''CLEAR_ALL invoked'' s'))" by simp
    show "locks s' = [] \<Longrightarrow> locks (snd (log env ''CLEAR_ALL invoked'' s')) = []" by simp
  qed
  then show ?thesis using f res by (simp add: clearAll_def)
qed

lemma enqueue_alive:
  assumes "\<not> terminated (enqueue env r sid t tmo s)"
  shows "logReady (enqueue env r sid t tmo s)"
proof -
  obtain rc s1 where g: "getRecord r s = (rc, s1)" by (cases "getRecord r s") auto
  let ?rq = "\<lparr>type = t, sessionId = sid, requestedAt = now env, reqId = nextId s\<rparr>"
  let ?s3 = "setRecord r (rc\<lparr>queue := queue rc @ [?rq]\<rparr>)
      (s1\<lparr>nextId := Suc (nextId s), timers := timers s1 @ [(now env + tmo, r, ?rq)]\<rparr>)"
  let ?s4 = "logDetached env (queuedMessage t r sid) ?s3"
  have e: "enqueue env r sid t tmo s = processQueue env r ?s4"
    by (simp add: enqueue_def Let_def g)
  have "\<not> terminated ?s4"
    using assms promiseStep_alive[OF promiseStep_processQueue[of env ?s4 r]] unfolding e by blast
  then have "logReady ?s4" by (rule logDetached_alive)
  then show ?thesis
    unfolding e using promiseStep_ready[OF promiseStep_processQueue[of env ?s4 r]] by blast
qed

lemma timeoutFire_alive:
  assumes "\<not> terminated (timeoutFire env r rq s)"
  shows "logReady (timeoutFire env r rq s)"
proof -
  define s0 where "s0 = clearTimeout (reqId rq) s"
  define s1 where "s1 = (case map_of (locks s0) r of None \<Rightarrow> s0
     | Some record \<Rightarrow> setRecord r (record\<lparr>queue := filter (\<lambda>req. reqId req \<noteq> reqId rq) (queue record)\<rparr>) s0)"
  define s2 where "s2 = logDetached env (timeoutMessage (type rq) r (sessionId rq))
           (settle env (reqId rq) (Rejected (TimeoutError (type rq) r)) s1)"
  define s3 where "s3 = cleanup r s2"
  have e: "timeoutFire env r rq s = processQueue env r s3"
    unfolding timeoutFire_def Let_def s3_def s2_def s1_def s0_def ..
  have "\<not> terminated s3"
    using assms promiseStep_alive[OF promiseStep_processQueue[of env s3 r]] unfolding e by blast
  then have "\<not> terminated s2" by (simp add: s3_def)
  then have "logReady s2" unfolding s2_def by (rule logDetached_alive)
  then have "logReady s3" by (simp add: s3_def logReady_def)
  then show ?thesis
    unfolding e using promiseStep_ready[OF promiseStep_processQueue[of env s3 r]] by blast
qed

lemma allQuiet_simulations [simp]: "allQuiet (s\<lparr>simulations := x\<rparr>) = allQuiet s"
  by (simp add: allQuiet_def)

lemma tidy_releaseTimers [simp]: "tidy (s\<lparr>releaseTimers := x\<rparr>) = tidy s"
  by (simp add: tidy_def allQuiet_def logReady_def)

lemma alive_reachable: "reachable s \<Longrightarrow> \<not> terminated s"
  by (induction rule: reachable.induct) (simp_all add: newManager_def)

lemma tidy_reachable: "reachable s \<Longrightarrow> tidy s"
proof (induction rule: reachable.induct)
  case r_new
  show ?case by (simp add: tidy_def allQuiet_def newManager_def)
next
  case (r_acquireRead s env resourceId sid)
  then show ?case
    by (simp add: acquireReadLock_def tidy_alive allQuiet_enqueue enqueue_alive tidy_def)
next
  case (r_acquireWrite s env resourceId sid)
  then show ?case
    by (simp add: acquireWriteLock_def tidy_alive allQuiet_enqueue enqueue_alive tidy_def)
next
  case (r_processQueue s env resourceId)
  then show ?case by (simp add: tidy_processQueue)
next
  case (r_release s env resourceId sid)
  then show ?case by (simp add: tidy_releaseLock)
next
  case (r_timeout s due resourceId request env)
  then show ?case by (simp add: tidy_alive allQuiet_timeoutFire timeoutFire_alive tidy_def)
next
  case (r_forceUnlock s env resourceId)
  then show ?case by (simp add: tidy_forceUnlock)
next
  case (r_clearAll s env)
  then show ?case by (simp add: tidy_clearAll)
next
  case (r_simulateRead s env uuid resourceId holdMs)
  let ?s1 = "s\<lparr>simulations := simulations s @ [(nextId s, resourceId, simReadSession uuid, holdMs)]\<rparr>"
  have e: "simulateReadLock env uuid resourceId holdMs s =
      enqueue env resourceId (simReadSession uuid) Read LOCK_TIMEOUT_MS ?s1"
    by (simp add: simulateReadLock_def acquireReadLock_def Let_def)
  have "allQuiet ?s1" using r_simulateRead.IH by (simp add: tidy_def)
  then have "allQuiet (enqueue env resourceId (simReadSession uuid) Read LOCK_TIMEOUT_MS ?s1)"
    by (rule allQuiet_enqueue)
  moreover have "logReady (enqueue env resourceId (simReadSession uuid) Read LOCK_TIMEOUT_MS ?s1)"
    using r_simulateRead.hyps(2) unfolding e by (rule enqueue_alive)
  ultimately show ?case unfolding e by (rule tidy_alive)
next
  case (r_simulateWrite s env uuid resourceId holdMs)
  let ?s1 = "s\<lparr>simulations := simulations s @ [(nextId s, resourceId, simWriteSession uuid, holdMs)]\<rparr>"
  have e: "simulateWriteLock env uuid resourceId holdMs s =
      enqueue env resourceId (simWriteSession uuid) Write LOCK_TIMEOUT_MS ?s1"
    by (simp add: simulateWriteLock_def acquireWriteLock_def Let_def)
  have "allQuiet ?s1" using r_simulateWrite.IH by (simp add: tidy_def)
  then have "allQuiet (enqueue env resourceId (simWriteSession uuid) Write LOCK_TIMEOUT_MS ?s1)"
    by (rule allQuiet_enqueue)
  moreover have "logReady (enqueue env resourceId (simWriteSession uuid) Write LOCK_TIMEOUT_MS ?s1)"
    using r_simulateWrite.hyps(2) unfolding e by (rule enqueue_alive)
  ultimately show ?case unfolding e by (rule tidy_alive)
next
  case (r_autoRelease s tm env)
  then show ?case by (cases tm) (simp add: autoRelease_eq tidy_releaseLock)
qed








lemma outcomeOf_requestReject:
  "outcomeOf (requestReject env q e s) j =
     (if j = reqId q \<and> outcomeOf s (reqId q) = None then Some (Rejected e) else outcomeOf s j)"
  by (simp add: requestReject_def outcomeOf_settle) (simp add: outcomeOf_def)

lemma outcomeOf_fold_reject_keep:
  "outcomeOf s j = Some oc \<Longrightarrow>
     outcomeOf (fold (\<lambda>req. requestReject env req (f req)) qs s) j = Some oc"
proof (induction qs arbitrary: s)
  case Nil
  then show ?case by simp
next
  case (Cons a qs)
  have "outcomeOf (requestReject env a (f a) s) j = Some oc"
    using Cons.prems by (auto simp: outcomeOf_requestReject)
  then show ?case using Cons.IH by simp
qed

lemma outcomeOf_fold_reject:
  "q \<in> set qs \<Longrightarrow> distinct (map reqId qs) \<Longrightarrow> outcomeOf s (reqId q) = None \<Longrightarrow>
     outcomeOf (fold (\<lambda>req. requestReject env req (f req)) qs s) (reqId q) = Some (Rejected (f q))"
proof (induction qs arbitrary: s)
  case Nil
  then show ?case by simp
next
  case (Cons a qs)
  show ?case
  proof (cases "a = q")
    case True
    then have "outcomeOf (requestReject env a (f a) s) (reqId q) = Some (Rejected (f q))"
      using Cons.prems by (simp add: outcomeOf_requestReject)
    then show ?thesis by (simp add: outcomeOf_fold_reject_keep)
  next
    case False
    then have "q \<in> set qs" using Cons.prems by simp
    moreover have "reqId a \<noteq> reqId q" using Cons.prems(2) \<open>q \<in> set qs\<close> by auto
    then have "outcomeOf (requestReject env a (f a) s) (reqId q) = None"
      using Cons.prems(3) by (simp add: outcomeOf_requestReject)
    ultimately show ?thesis using Cons.IH Cons.prems(2) by simp
  qed
qed

lemma recentLogs_prims [simp]:
  "recentLogs (setRecord r rc s) = recentLogs s" "recentLogs (cleanup r s) = recentLogs s"
  "recentLogs (clearTimeout i s) = recentLogs s" "recentLogs (settle env i oc s) = recentLogs s"
  by (simp_all add: setRecord_def cleanup_def clearTimeout_def settle_def simulateContinuation_def
      split: option.splits prod.splits Outcome.splits)


lemma recentLogs_logDetached [simp]:
  "recentLogs (logDetached env m s) = recentLogs (snd (log env m s))"
  by (simp add: logDetached_eq)

lemma last_recentLogs_log:
  assumes "logReady s"
  shows "last (recentLogs (snd (log env m s))) = (now env, m)"
proof -
  have "\<And>buf :: LogLine list. last (if length (buf @ [(now env, m)]) > MAX_LOG_ENTRIES
      then tl (buf @ [(now env, m)]) else buf @ [(now env, m)]) = (now env, m)"
  proof -
    fix buf :: "LogLine list"
    show "last (if length (buf @ [(now env, m)]) > MAX_LOG_ENTRIES
      then tl (buf @ [(now env, m)]) else buf @ [(now env, m)]) = (now env, m)"
      by (cases buf) (simp_all add: MAX_LOG_ENTRIES_def)
  qed
  then show ?thesis
    using assms
    by (simp add: log_def ensureLogDir_def pushLine_def logReady_def Let_def)
qed

lemma set_insertBy [simp]: "set (insertBy cmp x xs) = insert x (set xs)"
  by (induction xs) auto

lemma set_sortBy [simp]: "set (sortBy cmp xs) = set xs"
  by (induction xs) (simp_all add: sortBy_def)

lemma activeLocks_resources:
  "x \<in> set (fst (getActiveLocks localeCompare s)) \<Longrightarrow> a_resourceId x \<in> fst ` set (locks s)"
  by (auto simp: getActiveLocks_def recordLocks_def Let_def split: option.splits) force+

lemma lockQueue_resources:
  "x \<in> set (fst (getLockQueue s)) \<Longrightarrow> q_resourceId x \<in> fst ` set (locks s)"
  by (auto simp: getLockQueue_def recordQueue_def Let_def) force

lemma forceUnlock_effect:
  assumes d: "logReady s"
    and l: "map_of (locks s) r = Some rc"
    and dq: "distinct (map reqId (queue rc))"
    and p: "\<forall>q \<in> set (queue rc). outcomeOf s (reqId q) = None"
  shows "fst (forceUnlock env r s) = Inr () \<and>
         map_of (locks (snd (forceUnlock env r s))) r = None \<and>
         (\<forall>q \<in> set (queue rc).
            outcomeOf (snd (forceUnlock env r s)) (reqId q) = Some (Rejected (ForceUnlockError (sessionId q)))) \<and>
         last (recentLogs (snd (forceUnlock env r s))) = (now env, forceUnlockMessage r (forceSessions rc)) \<and>
         (\<forall>x \<in> set (fst (getActiveLocks localeCompare (snd (forceUnlock env r s)))). a_resourceId x \<noteq> r) \<and>
         (\<forall>x \<in> set (fst (getLockQueue (snd (forceUnlock env r s)))). q_resourceId x \<noteq> r)"
proof -
  let ?s3 = "forceFlush env r rc s"
  let ?msg = "forceUnlockMessage r (forceSessions rc)"
  obtain res s4 where lg: "log env ?msg ?s3 = (res, s4)" by (cases "log env ?msg ?s3") auto
  have d3: "logReady ?s3" using d by (simp add: logReady_def forceFlush_def)
  from log_ok[OF d3, of env ?msg] lg have res: "res = Inr ()" by simp
  have fu: "forceUnlock env r s = (Inr (), cleanup r s4)"
    using lg res by (simp add: forceUnlock_present[OF l])
  have s4: "s4 = snd (log env ?msg ?s3)" using lg by simp
  have l4: "map_of (locks s4) r = Some \<lparr>readers = [], writer = None, queue = []\<rparr>"
    by (simp add: s4)
  have gone: "map_of (locks (cleanup r s4)) r = None"
    using l4 by (simp add: lookup_cleanup idle_def)
  then have nokey: "r \<notin> fst ` set (locks (cleanup r s4))"
    by (simp add: map_of_eq_None_iff)
  have oc: "\<And>j. outcomeOf (cleanup r s4) j =
      outcomeOf (fold (\<lambda>req. requestReject env req (ForceUnlockError (sessionId req))) (queue rc)
          (setRecord r (rc\<lparr>writer := None, readers := []\<rparr>) s)) j"
    by (simp add: outcomeOf_def s4 forceFlush_def)
  have rej: "\<forall>q \<in> set (queue rc).
      outcomeOf (cleanup r s4) (reqId q) = Some (Rejected (ForceUnlockError (sessionId q)))"
  proof
    fix q assume q: "q \<in> set (queue rc)"
    with p have "outcomeOf (setRecord r (rc\<lparr>writer := None, readers := []\<rparr>) s) (reqId q) = None"
      by (simp add: outcomeOf_def)
    from outcomeOf_fold_reject[OF q dq this, of env "\<lambda>req. ForceUnlockError (sessionId req)"]
    show "outcomeOf (cleanup r s4) (reqId q) = Some (Rejected (ForceUnlockError (sessionId q)))"
      by (simp add: oc)
  qed
  have lst: "last (recentLogs (cleanup r s4)) = (now env, ?msg)"
    using last_recentLogs_log[OF d3, of env ?msg] by (simp add: s4)
  have a: "\<forall>x \<in> set (fst (getActiveLocks localeCompare (cleanup r s4))). a_resourceId x \<noteq> r"
    using nokey activeLocks_resources by metis
  have b: "\<forall>x \<in> set (fst (getLockQueue (cleanup r s4))). q_resourceId x \<noteq> r"
    using nokey lockQueue_resources by metis
  show ?thesis using gone rej lst a b by (simp add: fu)
qed




section \<open>Waiting requests\<close>

text \<open>
  In every reachable state the waiting requests are distinct, wait on one resource
  each, have pending promises and own the live timers (\<open>queueInv_reachable\<close>): a request
  leaves its queue in the same step in which its promise is settled and its timer
  cleared.
\<close>

lemma queueInv_removes:
  assumes inv: "queueInv s" and rm: "removes r X s s'"
  shows "queueInv s'"
proof -
  have d: "\<And>k. distinct (map reqId (queuedAt s k))"
    and dj: "\<And>a b. a \<noteq> b \<Longrightarrow> reqId ` set (queuedAt s a) \<inter> reqId ` set (queuedAt s b) = {}"
    and pe: "\<And>k q. q \<in> set (queuedAt s k) \<Longrightarrow> outcomeOf s (reqId q) = None"
    and tm: "\<And>t. t \<in> set (timers s) \<Longrightarrow> snd (snd t) \<in> set (queuedAt s (fst (snd t)))"
    using inv by (auto simp: queueInv_def)
  have other: "\<And>k. k \<noteq> r \<Longrightarrow> queuedAt s' k = queuedAt s k"
    and here: "queuedAt s' r = filter (\<lambda>q. reqId q \<notin> X) (queuedAt s r)"
    and out: "\<And>i. i \<notin> X \<Longrightarrow> outcomeOf s' i = outcomeOf s i"
    and tms: "timers s' = filter (\<lambda>t. reqId (snd (snd t)) \<notin> X) (timers s)"
    and X: "X \<subseteq> reqId ` set (queuedAt s r)"
    using rm by (auto simp: removes_def)
  have sub: "\<And>k. set (queuedAt s' k) \<subseteq> set (queuedAt s k)"
  proof -
    fix k show "set (queuedAt s' k) \<subseteq> set (queuedAt s k)"
      by (cases "k = r") (auto simp: here other)
  qed
  have 1: "\<forall>k. distinct (map reqId (queuedAt s' k))"
  proof
    fix k show "distinct (map reqId (queuedAt s' k))"
      by (cases "k = r") (simp_all add: here other d distinct_map_filter)
  qed
  have 2: "\<forall>a b. a \<noteq> b \<longrightarrow> reqId ` set (queuedAt s' a) \<inter> reqId ` set (queuedAt s' b) = {}"
  proof (intro allI impI)
    fix a b :: string assume ab: "a \<noteq> b"
    have "reqId ` set (queuedAt s' a) \<subseteq> reqId ` set (queuedAt s a)"
      and "reqId ` set (queuedAt s' b) \<subseteq> reqId ` set (queuedAt s b)"
      using sub by blast+
    then show "reqId ` set (queuedAt s' a) \<inter> reqId ` set (queuedAt s' b) = {}"
      using dj[OF ab] by blast
  qed
  have 3: "\<forall>k. \<forall>q \<in> set (queuedAt s' k). outcomeOf s' (reqId q) = None"
  proof (intro allI ballI)
    fix k q assume q: "q \<in> set (queuedAt s' k)"
    have qs: "q \<in> set (queuedAt s k)" using q sub by blast
    have "reqId q \<notin> X"
    proof (cases "k = r")
      case True
      then show ?thesis using q by (simp add: here)
    next
      case False
      have "reqId q \<in> reqId ` set (queuedAt s k)" using qs by simp
      then have "reqId q \<notin> reqId ` set (queuedAt s r)" using dj[OF False] by blast
      then show ?thesis using X by blast
    qed
    then show "outcomeOf s' (reqId q) = None" using out pe[OF qs] by simp
  qed
  have 4: "\<forall>t \<in> set (timers s'). snd (snd t) \<in> set (queuedAt s' (fst (snd t)))"
  proof
    fix t assume t: "t \<in> set (timers s')"
    then have ts: "t \<in> set (timers s)" and nx: "reqId (snd (snd t)) \<notin> X" by (simp_all add: tms)
    show "snd (snd t) \<in> set (queuedAt s' (fst (snd t)))"
      using tm[OF ts] nx by (cases "fst (snd t) = r") (simp_all add: here other)
  qed
  from 1 2 3 4 show ?thesis unfolding queueInv_def by blast
qed

lemma queueInv_distinct: "queueInv s \<Longrightarrow> distinct (map reqId (queuedAt s r))"
  by (simp add: queueInv_def)

lemma queueInv_frame:
  assumes "locks s' = locks s" and "outcomes s' = outcomes s" and "timers s' = timers s"
  shows "queueInv s' = queueInv s"
  using assms by (simp add: queueInv_def queuedAt_def outcomeOf_def)

lemma queuedAt_setRecord [simp]:
  "queuedAt (setRecord r rc s) k = (if k = r then queue rc else queuedAt s k)"
  by (simp add: queuedAt_def)

lemma queuedAt_locks: "locks s' = locks s \<Longrightarrow> queuedAt s' k = queuedAt s k"
  by (simp add: queuedAt_def)

lemma queuedAt_cleanup [simp]: "queuedAt (cleanup r s) k = queuedAt s k"
  by (auto simp: queuedAt_def lookup_cleanup idle_def split: option.splits)

lemma queueInv_cleanup [simp]: "queueInv (cleanup r s) = queueInv s"
  by (simp add: queueInv_def outcomeOf_def)

lemma queueInv_log [simp]: "queueInv (snd (log env m s)) = queueInv s"
  by (rule queueInv_frame) simp_all

lemma queueInv_logDetached [simp]: "queueInv (logDetached env m s) = queueInv s"
  by (rule queueInv_frame) simp_all

lemma queueInv_terminated [simp]: "queueInv (s\<lparr>terminated := b\<rparr>) = queueInv s"
  by (rule queueInv_frame) simp_all

lemma queueInv_releaseTimers [simp]: "queueInv (s\<lparr>releaseTimers := x\<rparr>) = queueInv s"
  by (rule queueInv_frame) simp_all

lemma queueInv_simulations [simp]: "queueInv (s\<lparr>simulations := x\<rparr>) = queueInv s"
  by (rule queueInv_frame) simp_all

lemma timers_requestResolve:
  "timers (requestResolve env r q s) = filter (\<lambda>t. reqId (snd (snd t)) \<noteq> reqId q) (timers s)"
  by (auto simp: requestResolve_def clearTimeout_def intro!: filter_cong)

lemma timers_requestReject:
  "timers (requestReject env q e s) = filter (\<lambda>t. reqId (snd (snd t)) \<noteq> reqId q) (timers s)"
  by (auto simp: requestReject_def clearTimeout_def intro!: filter_cong)

lemma timers_fold_resolve:
  "timers (fold (requestResolve env r) qs s) =
     filter (\<lambda>t. reqId (snd (snd t)) \<notin> reqId ` set qs) (timers s)"
  by (induction qs arbitrary: s) (auto simp: timers_requestResolve intro: filter_cong)

lemma timers_fold_reject:
  "timers (fold (\<lambda>req. requestReject env req (f req)) qs s) =
     filter (\<lambda>t. reqId (snd (snd t)) \<notin> reqId ` set qs) (timers s)"
  by (induction qs arbitrary: s) (auto simp: timers_requestReject intro: filter_cong)

lemma outcomeOf_fold_reject_other:
  "j \<notin> reqId ` set qs \<Longrightarrow>
     outcomeOf (fold (\<lambda>req. requestReject env req (f req)) qs s) j = outcomeOf s j"
  by (induction qs arbitrary: s) (auto simp: outcomeOf_requestReject)

lemma dropWhile_by_id:
  "distinct (map f xs) \<Longrightarrow>
     dropWhile P xs = filter (\<lambda>q. f q \<notin> f ` set (takeWhile P xs)) xs"
proof (induction xs)
  case Nil
  show ?case by simp
next
  case (Cons a as)
  show ?case
  proof (cases "P a")
    case False
    then show ?thesis by simp
  next
    case True
    have na: "f a \<notin> f ` set as" using Cons.prems by simp
    have "filter (\<lambda>q. f q \<notin> f ` set (takeWhile P (a # as))) as =
          filter (\<lambda>q. f q \<notin> f ` set (takeWhile P as)) as"
    proof (intro filter_cong refl)
      fix x assume "x \<in> set as"
      then have "f x \<noteq> f a" using na by (metis imageI)
      then show "(f x \<notin> f ` set (takeWhile P (a # as))) = (f x \<notin> f ` set (takeWhile P as))"
        using True by simp
    qed
    then show ?thesis using True Cons by simp
  qed
qed

lemma queueInv_processQueue:
  assumes inv: "queueInv s"
  shows "queueInv (processQueue env r s)"
proof (cases "map_of (locks s) r")
  case None
  then show ?thesis using inv by (simp add: processQueue_def)
next
  case (Some rc)
  have qa: "queuedAt s r = queue rc" using Some by (simp add: queuedAt_def)
  have d: "distinct (map reqId (queue rc))" using queueInv_distinct[OF inv, of r] by (simp add: qa)
  show ?thesis
  proof (cases "queue rc")
    case Nil
    then show ?thesis using Some inv by (simp add: processQueue_def)
  next
    case (Cons nx rest)
    show ?thesis
    proof (cases "writer rc \<noteq> None \<or> (type nx = Write \<and> readers rc \<noteq> [])")
      case True
      then have "processQueue env r s = s" using Some Cons by (auto simp: processQueue_def)
      then show ?thesis using inv by simp
    next
      case False
      then have w: "writer rc = None" by (cases "writer rc") auto
      show ?thesis
      proof (cases "type nx = Write")
        case True
        with False have e: "readers rc = []" by simp
        let ?s' = "requestResolve env r nx
            (setRecord r (rc\<lparr>queue := rest, writer := Some (sessionId nx, now env)\<rparr>) s)"
        have pq: "processQueue env r s = ?s'"
          using Some Cons w True e by (simp add: processQueue_def)
        have nn: "reqId nx \<notin> reqId ` set rest" using d Cons by simp
        have "\<forall>q \<in> set rest. reqId q \<noteq> reqId nx" using nn by (metis imageI)
        then have f: "filter (\<lambda>q. reqId q \<noteq> reqId nx) rest = rest"
          by (simp add: filter_id_conv)
        have "removes r {reqId nx} s ?s'"
          unfolding removes_def
          by (simp add: queuedAt_locks[of ?s' "setRecord r (rc\<lparr>queue := rest, writer := Some (sessionId nx, now env)\<rparr>) s"]
              qa Cons f outcomeOf_requestResolve timers_requestResolve)
             (simp add: outcomeOf_def)
        then show ?thesis unfolding pq by (rule queueInv_removes[OF inv])
      next
        case notW: False
        then have rd: "type nx = Read" by (cases "type nx") simp_all
        let ?pre = "takeWhile isRead (queue rc)"
        let ?s1 = "fold (requestResolve env r) ?pre s"
        let ?rc' = "rc\<lparr>queue := dropWhile isRead (queue rc),
             readers := fold (\<lambda>q. mapSet (sessionId q) (now env)) ?pre (readers rc)\<rparr>"
        have pq: "processQueue env r s = setRecord r ?rc' ?s1"
          by (rule processQueue_readHead[OF Some w Cons rd])
        have l1: "locks ?s1 = locks s" by simp
        have o: "\<And>i. i \<notin> reqId ` set ?pre \<Longrightarrow> outcomeOf (setRecord r ?rc' ?s1) i = outcomeOf s i"
          using outcomeOf_fold_resolve_other[of _ ?pre env r s] by (simp add: outcomeOf_def)
        have "removes r (reqId ` set ?pre) s (setRecord r ?rc' ?s1)"
          unfolding removes_def
        proof (intro conjI allI impI)
          fix k assume "k \<noteq> r"
          then show "queuedAt (setRecord r ?rc' ?s1) k = queuedAt s k"
            by (simp add: queuedAt_locks[OF l1])
        next
          show "queuedAt (setRecord r ?rc' ?s1) r =
              filter (\<lambda>q. reqId q \<notin> reqId ` set ?pre) (queuedAt s r)"
            using dropWhile_by_id[OF d, of isRead] by (simp add: qa)
        next
          fix i assume "i \<notin> reqId ` set ?pre"
          then show "outcomeOf (setRecord r ?rc' ?s1) i = outcomeOf s i" by (rule o)
        next
          show "timers (setRecord r ?rc' ?s1) =
              filter (\<lambda>t. reqId (snd (snd t)) \<notin> reqId ` set ?pre) (timers s)"
            by (simp add: timers_fold_resolve)
        next
          show "reqId ` set ?pre \<subseteq> reqId ` set (queuedAt s r)"
            unfolding qa using set_takeWhileD by fastforce
        qed
        then show ?thesis unfolding pq by (rule queueInv_removes[OF inv])
      qed
    qed
  qed
qed

lemma queuedAt_lookup: "map_of (locks s) r = Some rc \<Longrightarrow> queuedAt s r = queue rc"
  by (simp add: queuedAt_def)

lemma queuedAt_member:
  "q \<in> set (queuedAt s r) \<Longrightarrow> \<exists>rc. map_of (locks s) r = Some rc \<and> q \<in> set (queue rc)"
  by (cases "map_of (locks s) r") (simp_all add: queuedAt_def)

lemma queuedAt_bounded:
  assumes "boundedIds s" and "q \<in> set (queuedAt s k)"
  shows "reqId q < nextId s"
proof -
  from queuedAt_member[OF assms(2)] obtain rc where l: "map_of (locks s) k = Some rc"
    and q: "q \<in> set (queue rc)" by blast
  from l have "(k, rc) \<in> set (locks s)" by (rule map_of_SomeD)
  with assms(1) q show ?thesis unfolding boundedIds_def by force
qed

lemma fresh_outcome:
  assumes "boundedIds s"
  shows "outcomeOf s (nextId s) = None"
proof (cases "outcomeOf s (nextId s)")
  case None
  then show ?thesis .
next
  case (Some oc)
  then have "(nextId s, oc) \<in> set (outcomes s)" unfolding outcomeOf_def by (rule map_of_SomeD)
  with assms have "nextId s < nextId s" unfolding boundedIds_def by force
  then show ?thesis by simp
qed

lemma queueInv_enqueue:
  assumes inv: "queueInv s" and b: "boundedIds s"
  shows "queueInv (enqueue env r sid t tmo s)"
proof -
  obtain rc s1 where g: "getRecord r s = (rc, s1)" by (cases "getRecord r s") auto
  define rq where "rq = \<lparr>type = t, sessionId = sid, requestedAt = now env, reqId = nextId s\<rparr>"
  define s3 where "s3 = setRecord r (rc\<lparr>queue := queue rc @ [rq]\<rparr>)
      (s1\<lparr>nextId := Suc (nextId s), timers := timers s1 @ [(now env + tmo, r, rq)]\<rparr>)"
  have e: "enqueue env r sid t tmo s = processQueue env r (logDetached env (queuedMessage t r sid) s3)"
    by (simp add: enqueue_def Let_def g s3_def rq_def)
  have id: "reqId rq = nextId s" by (simp add: rq_def)
  have g1: "queue rc = queuedAt s r" and g2: "\<And>k. k \<noteq> r \<Longrightarrow> map_of (locks s1) k = map_of (locks s) k"
    and g3: "outcomes s1 = outcomes s" and g4: "timers s1 = timers s"
    using g by (auto simp: getRecord_def queuedAt_def emptyRecord_def map_add_def split: option.splits)
  have q3: "queuedAt s3 k = (if k = r then queuedAt s r @ [rq] else queuedAt s k)" for k
    using g1 g2 by (simp add: s3_def queuedAt_def)
  have o3: "outcomeOf s3 i = outcomeOf s i" for i by (simp add: s3_def outcomeOf_def g3)
  have t3: "timers s3 = timers s @ [(now env + tmo, r, rq)]" by (simp add: s3_def g4)
  have d: "\<And>k. distinct (map reqId (queuedAt s k))"
    and dj: "\<And>a b. a \<noteq> b \<Longrightarrow> reqId ` set (queuedAt s a) \<inter> reqId ` set (queuedAt s b) = {}"
    and pe: "\<And>k q. q \<in> set (queuedAt s k) \<Longrightarrow> outcomeOf s (reqId q) = None"
    and tm: "\<And>x. x \<in> set (timers s) \<Longrightarrow> snd (snd x) \<in> set (queuedAt s (fst (snd x)))"
    using inv by (auto simp: queueInv_def)
  have fr: "nextId s \<notin> reqId ` set (queuedAt s k)" for k
  proof
    assume "nextId s \<in> reqId ` set (queuedAt s k)"
    then obtain q where "q \<in> set (queuedAt s k)" and "reqId q = nextId s" by auto
    with queuedAt_bounded[OF b, of q k] show False by simp
  qed
  have ids: "reqId ` set (queuedAt s3 k) =
      (if k = r then insert (nextId s) (reqId ` set (queuedAt s r)) else reqId ` set (queuedAt s k))" for k
    by (simp add: q3 id)
  have 1: "\<forall>k. distinct (map reqId (queuedAt s3 k))"
    using d fr by (simp add: q3 id)
  have 2: "\<forall>a b. a \<noteq> b \<longrightarrow> reqId ` set (queuedAt s3 a) \<inter> reqId ` set (queuedAt s3 b) = {}"
  proof (intro allI impI)
    fix a b :: string assume ab: "a \<noteq> b"
    show "reqId ` set (queuedAt s3 a) \<inter> reqId ` set (queuedAt s3 b) = {}"
      unfolding ids using dj[OF ab] fr[of a] fr[of b] ab by auto
  qed
  have 3: "\<forall>k. \<forall>q \<in> set (queuedAt s3 k). outcomeOf s3 (reqId q) = None"
  proof (intro allI ballI)
    fix k q assume "q \<in> set (queuedAt s3 k)"
    then have "q = rq \<or> q \<in> set (queuedAt s k)" by (auto simp: q3 split: if_splits)
    then show "outcomeOf s3 (reqId q) = None"
      unfolding o3 using pe fresh_outcome[OF b] id by auto
  qed
  have 4: "\<forall>x \<in> set (timers s3). snd (snd x) \<in> set (queuedAt s3 (fst (snd x)))"
  proof
    fix x assume "x \<in> set (timers s3)"
    then have "x = (now env + tmo, r, rq) \<or> x \<in> set (timers s)" by (auto simp: t3)
    then show "snd (snd x) \<in> set (queuedAt s3 (fst (snd x)))"
    proof
      assume "x = (now env + tmo, r, rq)"
      then show ?thesis by (simp add: q3)
    next
      assume "x \<in> set (timers s)"
      from tm[OF this] show ?thesis by (cases "fst (snd x) = r") (simp_all add: q3)
    qed
  qed
  have "queueInv s3" unfolding queueInv_def using 1 2 3 4 by blast
  then have "queueInv (logDetached env (queuedMessage t r sid) s3)" by simp
  then show ?thesis unfolding e by (rule queueInv_processQueue)
qed

lemma timers_clearTimeout_eq:
  "timers (clearTimeout i s) = filter (\<lambda>t. reqId (snd (snd t)) \<noteq> i) (timers s)"
  by (auto simp: clearTimeout_def intro!: filter_cong)

lemma queueInv_timeoutFire:
  assumes inv: "queueInv s" and tm: "(due, r, rq) \<in> set (timers s)"
  shows "queueInv (timeoutFire env r rq s)"
proof -
  have qin: "rq \<in> set (queuedAt s r)" using inv tm by (force simp: queueInv_def)
  from queuedAt_member[OF this] obtain rc where l: "map_of (locks s) r = Some rc" by blast
  have qa: "queuedAt s r = queue rc" by (rule queuedAt_lookup[OF l])
  let ?s1 = "setRecord r (rc\<lparr>queue := filter (\<lambda>req. reqId req \<noteq> reqId rq) (queue rc)\<rparr>)
               (clearTimeout (reqId rq) s)"
  let ?s2 = "settle env (reqId rq) (Rejected (TimeoutError (type rq) r)) ?s1"
  let ?s3 = "logDetached env (timeoutMessage (type rq) r (sessionId rq)) ?s2"
  have tf: "timeoutFire env r rq s = processQueue env r (cleanup r ?s3)"
    using l by (simp add: timeoutFire_def Let_def)
  have l2: "locks ?s2 = locks ?s1" by simp
  have "removes r {reqId rq} s ?s2"
    unfolding removes_def
  proof (intro conjI allI impI)
    fix k assume "k \<noteq> r"
    then show "queuedAt ?s2 k = queuedAt s k"
      by (simp add: queuedAt_locks[OF l2]) (simp add: queuedAt_def)
  next
    show "queuedAt ?s2 r = filter (\<lambda>q. reqId q \<notin> {reqId rq}) (queuedAt s r)"
      by (simp add: queuedAt_locks[OF l2] qa)
  next
    fix i assume "i \<notin> {reqId rq}"
    then show "outcomeOf ?s2 i = outcomeOf s i"
      by (simp add: outcomeOf_settle) (simp add: outcomeOf_def)
  next
    show "timers ?s2 = filter (\<lambda>t. reqId (snd (snd t)) \<notin> {reqId rq}) (timers s)"
      by (simp add: timers_clearTimeout_eq)
  next
    show "{reqId rq} \<subseteq> reqId ` set (queuedAt s r)" using qin by simp
  qed
  then have "queueInv ?s2" by (rule queueInv_removes[OF inv])
  then have "queueInv (cleanup r ?s3)" by simp
  then show ?thesis unfolding tf by (rule queueInv_processQueue)
qed

lemma queueInv_releaseCancel:
  assumes inv: "queueInv s" and l: "map_of (locks s) r = Some rc"
  shows "queueInv (releaseCancel env r sid rc s)"
proof -
  let ?mine = "filter (\<lambda>req. sessionId req = sid) (queue rc)"
  let ?X = "reqId ` set ?mine"
  let ?c = "releaseCancel env r sid rc s"
  have qa: "queuedAt s r = queue rc" by (rule queuedAt_lookup[OF l])
  have d: "distinct (map reqId (queue rc))" using queueInv_distinct[OF inv, of r] by (simp add: qa)
  then have inj: "inj_on reqId (set (queue rc))" by (simp add: distinct_map)
  have lc: "locks ?c = locks (setRecord r (releaseRecord sid rc) s)"
    by (simp add: releaseCancel_def)
  have "removes r ?X s ?c"
    unfolding removes_def
  proof (intro conjI allI impI)
    fix k assume "k \<noteq> r"
    then show "queuedAt ?c k = queuedAt s k" by (simp add: queuedAt_locks[OF lc])
  next
    have "filter (\<lambda>req. sessionId req \<noteq> sid) (queue rc) = filter (\<lambda>q. reqId q \<notin> ?X) (queue rc)"
    proof (intro filter_cong refl)
      fix q assume q: "q \<in> set (queue rc)"
      show "(sessionId q \<noteq> sid) = (reqId q \<notin> ?X)"
      proof
        assume a: "sessionId q \<noteq> sid"
        show "reqId q \<notin> ?X"
        proof
          assume "reqId q \<in> ?X"
          then obtain q' where q': "q' \<in> set (queue rc)" "sessionId q' = sid" "reqId q' = reqId q"
            by auto
          with inj q have "q' = q" by (auto dest: inj_onD)
          with q' a show False by simp
        qed
      next
        assume "reqId q \<notin> ?X"
        then show "sessionId q \<noteq> sid" using q by auto
      qed
    qed
    then show "queuedAt ?c r = filter (\<lambda>q. reqId q \<notin> ?X) (queuedAt s r)"
      by (simp add: queuedAt_locks[OF lc] qa releaseRecord_def)
  next
    fix i assume "i \<notin> ?X"
    then show "outcomeOf ?c i = outcomeOf s i"
      unfolding releaseCancel_def
      using outcomeOf_fold_reject_other[of i ?mine env "\<lambda>req. CancelledError sid"]
      by (simp add: outcomeOf_def)
  next
    show "timers ?c = filter (\<lambda>t. reqId (snd (snd t)) \<notin> ?X) (timers s)"
      unfolding releaseCancel_def
      using timers_fold_reject[of env "\<lambda>req. CancelledError sid" ?mine] by simp
  next
    show "?X \<subseteq> reqId ` set (queuedAt s r)" unfolding qa by auto
  qed
  then show ?thesis by (rule queueInv_removes[OF inv])
qed

lemma queueInv_releaseLock:
  assumes inv: "queueInv s"
  shows "queueInv (snd (releaseLock env r sid s))"
proof (cases "map_of (locks s) r")
  case None
  then show ?thesis using inv by (simp add: releaseLock_absent)
next
  case (Some rc)
  have c: "queueInv (releaseCancel env r sid rc s)" by (rule queueInv_releaseCancel[OF inv Some])
  have fin: "\<And>s2. queueInv s2 \<Longrightarrow> queueInv (processQueue env r s2)"
    by (rule queueInv_processQueue)
  show ?thesis
  proof (cases "releaseHeld sid rc")
    case False
    then show ?thesis by (simp add: releaseLock_present[OF Some] fin[OF c])
  next
    case True
    obtain res s2 where lg: "log env (releasedMessage r sid) (releaseCancel env r sid rc s) = (res, s2)"
      by (cases "log env (releasedMessage r sid) (releaseCancel env r sid rc s)") auto
    have "queueInv s2"
      using c queueInv_log[of env "releasedMessage r sid" "releaseCancel env r sid rc s"] lg by simp
    then show ?thesis
      using True lg fin by (cases res) (simp_all add: releaseLock_present[OF Some])
  qed
qed

lemma queueInv_forceFlush:
  assumes inv: "queueInv s" and l: "map_of (locks s) r = Some rc"
  shows "queueInv (forceFlush env r rc s)"
proof -
  let ?X = "reqId ` set (queue rc)"
  let ?f = "forceFlush env r rc s"
  have qa: "queuedAt s r = queue rc" by (rule queuedAt_lookup[OF l])
  have "removes r ?X s ?f"
    unfolding removes_def
  proof (intro conjI allI impI)
    fix k assume "k \<noteq> r"
    then show "queuedAt ?f k = queuedAt s k" by (simp add: forceFlush_def queuedAt_def)
  next
    have "filter (\<lambda>q. reqId q \<notin> ?X) (queue rc) = []" by (simp add: filter_empty_conv)
    then show "queuedAt ?f r = filter (\<lambda>q. reqId q \<notin> ?X) (queuedAt s r)"
      by (simp add: forceFlush_def qa)
  next
    fix i assume "i \<notin> ?X"
    then show "outcomeOf ?f i = outcomeOf s i"
      unfolding forceFlush_def
      using outcomeOf_fold_reject_other[of i "queue rc" env "\<lambda>req. ForceUnlockError (sessionId req)"]
      by (simp add: outcomeOf_def)
  next
    show "timers ?f = filter (\<lambda>t. reqId (snd (snd t)) \<notin> ?X) (timers s)"
      unfolding forceFlush_def
      using timers_fold_reject[of env "\<lambda>req. ForceUnlockError (sessionId req)" "queue rc"] by simp
  next
    show "?X \<subseteq> reqId ` set (queuedAt s r)" unfolding qa by simp
  qed
  then show ?thesis by (rule queueInv_removes[OF inv])
qed

lemma queueInv_forceUnlock:
  assumes inv: "queueInv s"
  shows "queueInv (snd (forceUnlock env r s))"
proof (cases "map_of (locks s) r")
  case None
  then show ?thesis using inv by (simp add: forceUnlock_absent)
next
  case (Some rc)
  obtain res s4 where lg: "log env (forceUnlockMessage r (forceSessions rc)) (forceFlush env r rc s) = (res, s4)"
    by (cases "log env (forceUnlockMessage r (forceSessions rc)) (forceFlush env r rc s)") auto
  have "queueInv s4"
    using queueInv_forceFlush[OF inv Some, of env]
      queueInv_log[of env "forceUnlockMessage r (forceSessions rc)" "forceFlush env r rc s"] lg by simp
  then show ?thesis using lg by (cases res) (simp_all add: forceUnlock_present[OF Some])
qed

lemma queueInv_forceUnlockAll: "queueInv s \<Longrightarrow> queueInv (snd (forceUnlockAll env rs s))"
proof (induction rs arbitrary: s)
  case Nil
  then show ?case by simp
next
  case (Cons r rs)
  obtain res s' where f: "forceUnlock env r s = (res, s')" by (cases "forceUnlock env r s") auto
  have n: "queueInv s'" using queueInv_forceUnlock[OF Cons.prems, of env r] f by simp
  show ?case using f n Cons.IH[OF n] by (cases res) simp_all
qed

lemma queueInv_clearAll:
  assumes "queueInv s"
  shows "queueInv (snd (clearAll env s))"
proof -
  obtain res s' where f: "forceUnlockAll env (map fst (locks s)) s = (res, s')"
    by (cases "forceUnlockAll env (map fst (locks s)) s") auto
  have n: "queueInv s'" using queueInv_forceUnlockAll[OF assms, of env "map fst (locks s)"] f by simp
  then show ?thesis using f by (cases res) (simp_all add: clearAll_def)
qed

lemma boundedIds_simulations [simp]: "boundedIds (s\<lparr>simulations := x\<rparr>) = boundedIds s"
  by (simp add: boundedIds_def)

lemma queueInv_reachable: "reachable s \<Longrightarrow> queueInv s"
proof (induction rule: reachable.induct)
  case r_new
  show ?case by (simp add: queueInv_def queuedAt_def newManager_def)
next
  case (r_acquireRead s env resourceId sid)
  have "boundedIds s" using simInv_reachable[OF r_acquireRead.hyps(1)] by (simp add: simInv_def)
  then show ?case using r_acquireRead.IH by (simp add: acquireReadLock_def queueInv_enqueue)
next
  case (r_acquireWrite s env resourceId sid)
  have "boundedIds s" using simInv_reachable[OF r_acquireWrite.hyps(1)] by (simp add: simInv_def)
  then show ?case using r_acquireWrite.IH by (simp add: acquireWriteLock_def queueInv_enqueue)
next
  case (r_processQueue s env resourceId)
  then show ?case by (simp add: queueInv_processQueue)
next
  case (r_release s env resourceId sid)
  then show ?case by (simp add: queueInv_releaseLock)
next
  case (r_timeout s due resourceId request env)
  then show ?case by (simp add: queueInv_timeoutFire)
next
  case (r_forceUnlock s env resourceId)
  then show ?case by (simp add: queueInv_forceUnlock)
next
  case (r_clearAll s env)
  then show ?case by (simp add: queueInv_clearAll)
next
  case (r_simulateRead s env uuid resourceId holdMs)
  have "boundedIds s" using simInv_reachable[OF r_simulateRead.hyps(1)] by (simp add: simInv_def)
  then show ?case using r_simulateRead.IH
    by (simp add: simulateReadLock_def acquireReadLock_def Let_def queueInv_enqueue)
next
  case (r_simulateWrite s env uuid resourceId holdMs)
  have "boundedIds s" using simInv_reachable[OF r_simulateWrite.hyps(1)] by (simp add: simInv_def)
  then show ?case using r_simulateWrite.IH
    by (simp add: simulateWriteLock_def acquireWriteLock_def Let_def queueInv_enqueue)
next
  case (r_autoRelease s tm env)
  then show ?case by (cases tm) (simp add: autoRelease_eq queueInv_releaseLock)
qed

lemma queued_pending:
  assumes "reachable s" and "map_of (locks s) r = Some rc"
  shows "distinct (map reqId (queue rc)) \<and> (\<forall>q \<in> set (queue rc). outcomeOf s (reqId q) = None)"
proof -
  have inv: "queueInv s" by (rule queueInv_reachable[OF assms(1)])
  have qa: "queuedAt s r = queue rc" by (rule queuedAt_lookup[OF assms(2)])
  have "distinct (map reqId (queuedAt s r))" using inv by (simp add: queueInv_def)
  moreover have "\<forall>q \<in> set (queuedAt s r). outcomeOf s (reqId q) = None"
    using inv by (simp add: queueInv_def)
  ultimately show ?thesis by (simp add: qa)
qed


section \<open>Example runs, evaluated\<close>

text \<open>
  The example runs computed out, and their place among the reachable states.
\<close>

lemma heldByA_eval:
  "heldByA =
     \<lparr>locks = [(''R'', \<lparr>readers = [], writer = Some (''A'', 10), queue = []\<rparr>)],
      recentLogs = [(10, queuedMessage Write ''R'' ''A''), (10, acquiredMessage Write ''R'' ''A'')],
      ensureLogDirPromise = Some True,
      logFile = [(10, queuedMessage Write ''R'' ''A''), (10, acquiredMessage Write ''R'' ''A'')],
      timers = [], outcomes = [(0, Resolved)], nextId = 1, simulations = [],
      releaseTimers = [], simReturns = [], terminated = False\<rparr>"
  by (simp add: heldByA_def eval_defs)

lemma readerQueued_eval:
  "readerQueued =
     \<lparr>locks = [(''R'', \<lparr>readers = [], writer = Some (''A'', 10), queue = [exampleRequest Read ''B'' 1]\<rparr>)],
      recentLogs = [(10, queuedMessage Write ''R'' ''A''), (10, acquiredMessage Write ''R'' ''A''),
                    (10, queuedMessage Read ''R'' ''B'')],
      ensureLogDirPromise = Some True,
      logFile = [(10, queuedMessage Write ''R'' ''A''), (10, acquiredMessage Write ''R'' ''A''),
                 (10, queuedMessage Read ''R'' ''B'')],
      timers = [(5010, ''R'', exampleRequest Read ''B'' 1)], outcomes = [(0, Resolved)], nextId = 2,
      simulations = [], releaseTimers = [], simReturns = [], terminated = False\<rparr>"
  unfolding readerQueued_def heldByA_eval by (simp add: eval_defs exampleRequest_def)

lemma writerQueued_eval:
  "writerQueued =
     \<lparr>locks = [(''R'', \<lparr>readers = [], writer = Some (''A'', 10), queue = [exampleRequest Write ''B'' 1]\<rparr>)],
      recentLogs = [(10, queuedMessage Write ''R'' ''A''), (10, acquiredMessage Write ''R'' ''A''),
                    (10, queuedMessage Write ''R'' ''B'')],
      ensureLogDirPromise = Some True,
      logFile = [(10, queuedMessage Write ''R'' ''A''), (10, acquiredMessage Write ''R'' ''A''),
                 (10, queuedMessage Write ''R'' ''B'')],
      timers = [(5010, ''R'', exampleRequest Write ''B'' 1)], outcomes = [(0, Resolved)], nextId = 2,
      simulations = [], releaseTimers = [], simReturns = [], terminated = False\<rparr>"
  unfolding writerQueued_def heldByA_eval by (simp add: eval_defs exampleRequest_def)

lemma twoReadersQueued_eval:
  "twoReadersQueued =
     \<lparr>locks = [(''R'', \<lparr>readers = [], writer = Some (''A'', 10),
                         queue = [exampleRequest Read ''B'' 1, exampleRequest Read ''C'' 2]\<rparr>)],
      recentLogs = [(10, queuedMessage Write ''R'' ''A''), (10, acquiredMessage Write ''R'' ''A''),
                    (10, queuedMessage Read ''R'' ''B''), (10, queuedMessage Read ''R'' ''C'')],
      ensureLogDirPromise = Some True,
      logFile = [(10, queuedMessage Write ''R'' ''A''), (10, acquiredMessage Write ''R'' ''A''),
                 (10, queuedMessage Read ''R'' ''B''), (10, queuedMessage Read ''R'' ''C'')],
      timers = [(5010, ''R'', exampleRequest Read ''B'' 1), (5010, ''R'', exampleRequest Read ''C'' 2)],
      outcomes = [(0, Resolved)], nextId = 3,
      simulations = [], releaseTimers = [], simReturns = [], terminated = False\<rparr>"
  unfolding twoReadersQueued_def readerQueued_eval by (simp add: eval_defs exampleRequest_def)

lemma mixedQueue_eval:
  "mixedQueue =
     \<lparr>locks = [(''R'', \<lparr>readers = [], writer = Some (''A'', 10),
                         queue = [exampleRequest Read ''B'' 1, exampleRequest Read ''C'' 2,
                                  exampleRequest Write ''D'' 3, exampleRequest Read ''E'' 4]\<rparr>)],
      recentLogs = [(10, queuedMessage Write ''R'' ''A''), (10, acquiredMessage Write ''R'' ''A''),
                    (10, queuedMessage Read ''R'' ''B''), (10, queuedMessage Read ''R'' ''C''),
                    (10, queuedMessage Write ''R'' ''D''), (10, queuedMessage Read ''R'' ''E'')],
      ensureLogDirPromise = Some True,
      logFile = [(10, queuedMessage Write ''R'' ''A''), (10, acquiredMessage Write ''R'' ''A''),
                 (10, queuedMessage Read ''R'' ''B''), (10, queuedMessage Read ''R'' ''C''),
                 (10, queuedMessage Write ''R'' ''D''), (10, queuedMessage Read ''R'' ''E'')],
      timers = [(5010, ''R'', exampleRequest Read ''B'' 1), (5010, ''R'', exampleRequest Read ''C'' 2),
                (5010, ''R'', exampleRequest Write ''D'' 3), (5010, ''R'', exampleRequest Read ''E'' 4)],
      outcomes = [(0, Resolved)], nextId = 5,
      simulations = [], releaseTimers = [], simReturns = [], terminated = False\<rparr>"
  unfolding mixedQueue_def twoReadersQueued_eval by (simp add: eval_defs exampleRequest_def)

lemma releasingWithWriter_eval:
  "releasingWithWriter =
     \<lparr>locks = [(''R'', \<lparr>readers = [], writer = None, queue = [exampleRequest Write ''B'' 1]\<rparr>)],
      recentLogs = [(10, queuedMessage Write ''R'' ''A''), (10, acquiredMessage Write ''R'' ''A''),
                    (10, queuedMessage Write ''R'' ''B''), (10, releasedMessage ''R'' ''A'')],
      ensureLogDirPromise = Some True,
      logFile = [(10, queuedMessage Write ''R'' ''A''), (10, acquiredMessage Write ''R'' ''A''),
                 (10, queuedMessage Write ''R'' ''B''), (10, releasedMessage ''R'' ''A'')],
      timers = [(5010, ''R'', exampleRequest Write ''B'' 1)], outcomes = [(0, Resolved)], nextId = 2,
      simulations = [], releaseTimers = [], simReturns = [], terminated = False\<rparr>"
  unfolding releasingWithWriter_def writerQueued_eval
  by (simp add: releaseCancel_def releaseRecord_def eval_defs exampleRequest_def)

lemma releasingMixed_eval:
  "releasingMixed =
     \<lparr>locks = [(''R'', \<lparr>readers = [], writer = None,
                         queue = [exampleRequest Read ''B'' 1, exampleRequest Read ''C'' 2,
                                  exampleRequest Write ''D'' 3, exampleRequest Read ''E'' 4]\<rparr>)],
      recentLogs = [(10, queuedMessage Write ''R'' ''A''), (10, acquiredMessage Write ''R'' ''A''),
                    (10, queuedMessage Read ''R'' ''B''), (10, queuedMessage Read ''R'' ''C''),
                    (10, queuedMessage Write ''R'' ''D''), (10, queuedMessage Read ''R'' ''E''),
                    (10, releasedMessage ''R'' ''A'')],
      ensureLogDirPromise = Some True,
      logFile = [(10, queuedMessage Write ''R'' ''A''), (10, acquiredMessage Write ''R'' ''A''),
                 (10, queuedMessage Read ''R'' ''B''), (10, queuedMessage Read ''R'' ''C''),
                 (10, queuedMessage Write ''R'' ''D''), (10, queuedMessage Read ''R'' ''E''),
                 (10, releasedMessage ''R'' ''A'')],
      timers = [(5010, ''R'', exampleRequest Read ''B'' 1), (5010, ''R'', exampleRequest Read ''C'' 2),
                (5010, ''R'', exampleRequest Write ''D'' 3), (5010, ''R'', exampleRequest Read ''E'' 4)],
      outcomes = [(0, Resolved)], nextId = 5,
      simulations = [], releaseTimers = [], simReturns = [], terminated = False\<rparr>"
  unfolding releasingMixed_def mixedQueue_eval
  by (simp add: releaseCancel_def releaseRecord_def eval_defs exampleRequest_def)

lemma readHeldWriterQueued_eval:
  "readHeldWriterQueued =
     \<lparr>locks = [(''R'', \<lparr>readers = [(''A'', 10)], writer = None, queue = [exampleRequest Write ''B'' 1]\<rparr>)],
      recentLogs = [(10, queuedMessage Read ''R'' ''A''), (10, acquiredMessage Read ''R'' ''A''),
                    (10, queuedMessage Write ''R'' ''B'')],
      ensureLogDirPromise = Some True,
      logFile = [(10, queuedMessage Read ''R'' ''A''), (10, acquiredMessage Read ''R'' ''A''),
                 (10, queuedMessage Write ''R'' ''B'')],
      timers = [(5010, ''R'', exampleRequest Write ''B'' 1)], outcomes = [(0, Resolved)], nextId = 2,
      simulations = [], releaseTimers = [], simReturns = [], terminated = False\<rparr>"
  by (simp add: readHeldWriterQueued_def exampleRequest_def eval_defs)

lemma reachable_heldByA: "reachable heldByA"
proof -
  have "\<not> terminated heldByA" by (simp add: heldByA_eval)
  then show ?thesis unfolding heldByA_def by (intro reachable.intros)
qed

lemma reachable_readerQueued: "reachable readerQueued"
proof -
  have "\<not> terminated readerQueued" by (simp add: readerQueued_eval)
  then show ?thesis unfolding readerQueued_def by (intro reachable.intros reachable_heldByA)
qed

lemma reachable_writerQueued: "reachable writerQueued"
proof -
  have "\<not> terminated writerQueued" by (simp add: writerQueued_eval)
  then show ?thesis unfolding writerQueued_def by (intro reachable.intros reachable_heldByA)
qed

lemma reachable_twoReadersQueued: "reachable twoReadersQueued"
proof -
  have "\<not> terminated twoReadersQueued" by (simp add: twoReadersQueued_eval)
  then show ?thesis unfolding twoReadersQueued_def by (intro reachable.intros reachable_readerQueued)
qed

lemma appendFile_failure_is_swallowed:
  "log (env\<lparr>appendOk := False\<rparr>) m s =
     (fst (log (env\<lparr>appendOk := True\<rparr>) m s),
      (snd (log (env\<lparr>appendOk := True\<rparr>) m s))\<lparr>logFile := logFile s\<rparr>)"
  by (simp add: log_def ensureLogDir_def pushLine_def Let_def split: option.splits)







section \<open>The claims\<close>

text \<open>
  Claim C1. In every reachable state (any sequence of acquisitions, scheduler passes,
  releases, timeouts, forced unlocks, clearAll, simulated locks and their automatic
  releases, whatever the environment answers), every record of the lock table has its
  writer slot occupied only if its reader set is empty, and its reader set non-empty
  only if its writer slot is empty.
\<close>

theorem C1_mutual_exclusion:
  assumes "reachable s" and "(resourceId, record) \<in> set (locks s)"
  shows "(writer record \<noteq> None \<longrightarrow> readers record = []) \<and>
         (readers record \<noteq> [] \<longrightarrow> writer record = None)"
  using mutex_reachable[OF assms(1)] assms(2) by (auto simp: mutex_def)

text \<open>The claim at work: after A took the write lock on R, R has a writer and no reader.\<close>

theorem C1_mutual_exclusion_witness:
  "reachable heldByA \<and>
   (''R'', \<lparr>readers = [], writer = Some (''A'', 10), queue = []\<rparr>) \<in> set (locks heldByA) \<and>
   writer \<lparr>readers = [], writer = Some (''A'', 10), queue = []\<rparr> \<noteq> None \<and>
   readers \<lparr>readers = [], writer = Some (''A'', 10), queue = ([] :: LockRequest list)\<rparr> = []"
proof -
  have r: "reachable heldByA" by (rule reachable_heldByA)
  have m: "(''R'', \<lparr>readers = [], writer = Some (''A'', 10), queue = []\<rparr>) \<in> set (locks heldByA)"
    by (simp add: heldByA_eval)
  show ?thesis using C1_mutual_exclusion[OF r m] r m by simp
qed

text \<open>
  Claim C2. A resource without writer whose queue head \<open>nx\<close> is a pending write request:
  one scheduler pass grants \<open>nx\<close> exactly when the reader set is empty. If it is, \<open>nx\<close>
  becomes the writer, the queue loses its head and no other request is settled; if it
  is not, the pass changes nothing at all, so the head stays queued and nothing behind
  it is granted.
\<close>

theorem C2_write_head_granted_iff_no_readers:
  assumes "map_of (locks s) r = Some rc" and "writer rc = None"
    and "queue rc = nx # rest" and "type nx = Write"
    and "outcomeOf s (reqId nx) = None"
  shows "(outcomeOf (processQueue env r s) (reqId nx) = Some Resolved) = (readers rc = [])
       \<and> (readers rc = [] \<longrightarrow>
            map_of (locks (processQueue env r s)) r =
              Some (rc\<lparr>queue := rest, writer := Some (sessionId nx, now env)\<rparr>)
            \<and> (\<forall>i. i \<noteq> reqId nx \<longrightarrow> outcomeOf (processQueue env r s) i = outcomeOf s i))
       \<and> (readers rc \<noteq> [] \<longrightarrow> processQueue env r s = s)"
proof (cases "readers rc = []")
  case True
  have pq: "processQueue env r s =
      requestResolve env r nx (setRecord r (rc\<lparr>queue := rest, writer := Some (sessionId nx, now env)\<rparr>) s)"
    using assms True by (simp add: processQueue_def)
  have "outcomeOf (processQueue env r s) (reqId nx) = Some Resolved"
    using assms(5) by (simp add: pq outcomeOf_requestResolve) (simp add: outcomeOf_def)
  moreover have "map_of (locks (processQueue env r s)) r =
              Some (rc\<lparr>queue := rest, writer := Some (sessionId nx, now env)\<rparr>)"
    by (simp add: pq)
  moreover have "\<forall>i. i \<noteq> reqId nx \<longrightarrow> outcomeOf (processQueue env r s) i = outcomeOf s i"
    by (simp add: pq outcomeOf_requestResolve) (simp add: outcomeOf_def)
  ultimately show ?thesis using True by simp
next
  case False
  then have "processQueue env r s = s" using assms by (simp add: processQueue_def)
  then show ?thesis using False assms(5) by simp
qed

text \<open>
  Both cases: inside A's release, B's write request at the head of the free resource is
  granted by the scheduler pass; with reader A present it stays queued and the manager
  is unchanged.
\<close>

theorem C2_write_head_granted_iff_no_readers_witness:
  "map_of (locks releasingWithWriter) ''R'' =
     Some \<lparr>readers = [], writer = None, queue = [exampleRequest Write ''B'' 1]\<rparr> \<and>
   outcomeOf releasingWithWriter 1 = None \<and>
   outcomeOf (processQueue env0 ''R'' releasingWithWriter) 1 = Some Resolved \<and>
   map_of (locks (processQueue env0 ''R'' releasingWithWriter)) ''R'' =
     Some \<lparr>readers = [], writer = Some (''B'', 10), queue = []\<rparr> \<and>
   map_of (locks readHeldWriterQueued) ''R'' =
     Some \<lparr>readers = [(''A'', 10)], writer = None, queue = [exampleRequest Write ''B'' 1]\<rparr> \<and>
   outcomeOf readHeldWriterQueued 1 = None \<and>
   processQueue env0 ''R'' readHeldWriterQueued = readHeldWriterQueued \<and>
   outcomeOf (processQueue env0 ''R'' readHeldWriterQueued) 1 = None"
proof -
  let ?f = "\<lparr>readers = [], writer = None, queue = [exampleRequest Write ''B'' 1]\<rparr>"
  let ?h = "\<lparr>readers = [(''A'', 10)], writer = None, queue = [exampleRequest Write ''B'' 1]\<rparr>"
  have f1: "map_of (locks releasingWithWriter) ''R'' = Some ?f" by (simp add: releasingWithWriter_eval)
  have f2: "writer ?f = None" and f3: "queue ?f = exampleRequest Write ''B'' 1 # []"
    and f4: "type (exampleRequest Write ''B'' 1) = Write" by (simp_all add: exampleRequest_def)
  have f5: "outcomeOf releasingWithWriter (reqId (exampleRequest Write ''B'' 1)) = None"
    by (simp add: releasingWithWriter_eval outcomeOf_def exampleRequest_def)
  have h1: "map_of (locks readHeldWriterQueued) ''R'' = Some ?h" by (simp add: readHeldWriterQueued_eval)
  have h2: "writer ?h = None" and h3: "queue ?h = exampleRequest Write ''B'' 1 # []" by simp_all
  have h5: "outcomeOf readHeldWriterQueued (reqId (exampleRequest Write ''B'' 1)) = None"
    by (simp add: readHeldWriterQueued_eval outcomeOf_def exampleRequest_def)
  show ?thesis
    using C2_write_head_granted_iff_no_readers[OF f1 f2 f3 f4 f5, of env0]
      C2_write_head_granted_iff_no_readers[OF h1 h2 h3 f4 h5, of env0] f1 f5 h1 h5
    by (simp add: exampleRequest_def env0_def)
qed

text \<open>
  Claim C3. A resource without writer whose queue head is a read request, the queued
  requests being distinct objects with pending promises: one scheduler pass grants the
  head and exactly the longest run of read requests at the front of the queue (each is
  resolved and its session entered in the reader set), settles no other request, and
  leaves the queue from the first write request on, in its order.
\<close>

theorem C3_read_head_grants_read_prefix:
  assumes "map_of (locks s) r = Some rc" and "writer rc = None"
    and "queue rc = nx # rest" and "type nx = Read"
    and "distinct (map reqId (queue rc))"
    and "\<forall>q \<in> set (queue rc). outcomeOf s (reqId q) = None"
  shows "map_of (locks (processQueue env r s)) r =
           Some (rc\<lparr>queue := dropWhile isRead (queue rc),
                   readers := fold (\<lambda>q. mapSet (sessionId q) (now env))
                                (takeWhile isRead (queue rc)) (readers rc)\<rparr>)
       \<and> nx \<in> set (takeWhile isRead (queue rc))
       \<and> (\<forall>q \<in> set (takeWhile isRead (queue rc)).
             outcomeOf (processQueue env r s) (reqId q) = Some Resolved)
       \<and> (\<forall>q \<in> set (dropWhile isRead (queue rc)).
             outcomeOf (processQueue env r s) (reqId q) = None)
       \<and> (\<forall>i. i \<notin> reqId ` set (takeWhile isRead (queue rc)) \<longrightarrow>
             outcomeOf (processQueue env r s) i = outcomeOf s i)
       \<and> (dropWhile isRead (queue rc) = [] \<or> type (hd (dropWhile isRead (queue rc))) = Write)"
proof -
  let ?pre = "takeWhile isRead (queue rc)" and ?post = "dropWhile isRead (queue rc)"
  have pq: "outcomeOf (processQueue env r s) = outcomeOf (fold (requestResolve env r) ?pre s)"
    by (rule ext) (simp add: processQueue_readHead[OF assms(1-4)] outcomeOf_def)
  have 1: "map_of (locks (processQueue env r s)) r =
           Some (rc\<lparr>queue := ?post,
                   readers := fold (\<lambda>q. mapSet (sessionId q) (now env)) ?pre (readers rc)\<rparr>)"
    by (simp add: processQueue_readHead[OF assms(1-4)])
  have 2: "nx \<in> set ?pre" using assms(3,4) by (simp add: isRead_def)
  have 3: "\<forall>q \<in> set ?pre. outcomeOf (processQueue env r s) (reqId q) = Some Resolved"
  proof
    fix q assume q: "q \<in> set ?pre"
    then have "q \<in> set (queue rc)" by (rule set_takeWhileD[THEN conjunct1])
    with assms(6) have "outcomeOf s (reqId q) = None" by simp
    with q show "outcomeOf (processQueue env r s) (reqId q) = Some Resolved"
      by (simp add: pq outcomeOf_fold_resolve_granted)
  qed
  have split: "queue rc = ?pre @ ?post" by simp
  have 4: "\<forall>q \<in> set ?post. outcomeOf (processQueue env r s) (reqId q) = None"
  proof
    fix q assume q: "q \<in> set ?post"
    have "distinct (map reqId ?pre @ map reqId ?post)"
      using assms(5) by (metis map_append split)
    then have "reqId q \<notin> reqId ` set ?pre" using q by auto
    moreover have "q \<in> set (queue rc)" using q by (rule set_dropWhileD)
    ultimately show "outcomeOf (processQueue env r s) (reqId q) = None"
      using assms(6) by (simp add: pq outcomeOf_fold_resolve_other)
  qed
  have 5: "\<forall>i. i \<notin> reqId ` set ?pre \<longrightarrow> outcomeOf (processQueue env r s) i = outcomeOf s i"
    by (simp add: pq outcomeOf_fold_resolve_other)
  have 6: "?post = [] \<or> type (hd ?post) = Write"
  proof (cases ?post)
    case Nil
    then show ?thesis by simp
  next
    case (Cons a as)
    then have "\<not> isRead a" by (metis hd_dropWhile list.sel(1) list.distinct(1))
    then show ?thesis using Cons by (cases "type a") (simp_all add: isRead_def)
  qed
  from 1 2 3 4 5 6 show ?thesis by blast
qed

text \<open>
  Inside A's release, the queue read B, read C, write D, read E on the free resource:
  B and C are granted, D and E stay queued in this order.
\<close>

theorem C3_read_head_grants_read_prefix_witness:
  "map_of (locks releasingMixed) ''R'' =
     Some \<lparr>readers = [], writer = None,
           queue = [exampleRequest Read ''B'' 1, exampleRequest Read ''C'' 2,
                    exampleRequest Write ''D'' 3, exampleRequest Read ''E'' 4]\<rparr> \<and>
   map_of (locks (processQueue env0 ''R'' releasingMixed)) ''R'' =
     Some \<lparr>readers = [(''B'', 10), (''C'', 10)], writer = None,
           queue = [exampleRequest Write ''D'' 3, exampleRequest Read ''E'' 4]\<rparr> \<and>
   outcomeOf (processQueue env0 ''R'' releasingMixed) 1 = Some Resolved \<and>
   outcomeOf (processQueue env0 ''R'' releasingMixed) 2 = Some Resolved \<and>
   outcomeOf (processQueue env0 ''R'' releasingMixed) 3 = None \<and>
   outcomeOf (processQueue env0 ''R'' releasingMixed) 4 = None"
proof -
  let ?q = "[exampleRequest Read ''B'' 1, exampleRequest Read ''C'' 2, exampleRequest Write ''D'' 3, exampleRequest Read ''E'' 4]"
  let ?rc = "\<lparr>readers = [], writer = None, queue = ?q\<rparr>"
  have a1: "map_of (locks releasingMixed) ''R'' = Some ?rc" by (simp add: releasingMixed_eval)
  have a2: "writer ?rc = None"
    and a3: "queue ?rc = exampleRequest Read ''B'' 1 # [exampleRequest Read ''C'' 2, exampleRequest Write ''D'' 3, exampleRequest Read ''E'' 4]"
    and a4: "type (exampleRequest Read ''B'' 1) = Read"
    and a5: "distinct (map reqId (queue ?rc))"
    by (simp_all add: exampleRequest_def)
  have a6: "\<forall>q \<in> set (queue ?rc). outcomeOf releasingMixed (reqId q) = None"
    by (simp add: releasingMixed_eval outcomeOf_def exampleRequest_def)
  show ?thesis
    using C3_read_head_grants_read_prefix[OF a1 a2 a3 a4 a5 a6, of env0] a1
    by (simp add: isRead_def exampleRequest_def env0_def mapSet_def)
qed



text \<open>
  Claim C5. In a reachable state, for a resource \<open>r\<close> with an entry in the table,
  \<open>forceUnlock\<close> returns without error, the entry of \<open>r\<close> (with its writer and readers)
  is gone from the table, every request that waited on \<open>r\<close> is rejected with the
  force-unlock cancellation error, the FORCE_UNLOCK line is the newest line of the log
  buffer, and no row of the active-lock snapshot or of the queue snapshot taken
  afterwards names \<open>r\<close>.
\<close>

theorem C5_forceUnlock_complete:
  assumes "reachable s" and "map_of (locks s) r = Some rc"
  shows "fst (forceUnlock env r s) = Inr () \<and>
         map_of (locks (snd (forceUnlock env r s))) r = None \<and>
         (\<forall>q \<in> set (queue rc).
            outcomeOf (snd (forceUnlock env r s)) (reqId q) = Some (Rejected (ForceUnlockError (sessionId q)))) \<and>
         last (recentLogs (snd (forceUnlock env r s))) = (now env, forceUnlockMessage r (forceSessions rc)) \<and>
         (\<forall>x \<in> set (fst (getActiveLocks localeCompare (snd (forceUnlock env r s)))). a_resourceId x \<noteq> r) \<and>
         (\<forall>x \<in> set (fst (getLockQueue (snd (forceUnlock env r s)))). q_resourceId x \<noteq> r)"
proof -
  have "locks s \<noteq> []" using assms(2) by auto
  then have d: "logReady s" using tidy_reachable[OF assms(1)] by (simp add: tidy_def)
  from queued_pending[OF assms] have dq: "distinct (map reqId (queue rc))"
    and p: "\<forall>q \<in> set (queue rc). outcomeOf s (reqId q) = None" by simp_all
  from d assms(2) dq p show ?thesis by (rule forceUnlock_effect)
qed

text \<open>
  A holds the write lock on R, B and C wait to read. \<open>forceUnlock\<close> succeeds, R has no
  entry left, B and C are rejected, the event is logged with the session A, and both
  snapshots are empty.
\<close>

theorem C5_forceUnlock_complete_witness:
  "reachable twoReadersQueued \<and>
   map_of (locks twoReadersQueued) ''R'' =
     Some \<lparr>readers = [], writer = Some (''A'', 10),
           queue = [exampleRequest Read ''B'' 1, exampleRequest Read ''C'' 2]\<rparr> \<and>
   fst (forceUnlock env0 ''R'' twoReadersQueued) = Inr () \<and>
   map_of (locks (snd (forceUnlock env0 ''R'' twoReadersQueued))) ''R'' = None \<and>
   outcomeOf (snd (forceUnlock env0 ''R'' twoReadersQueued)) 1 = Some (Rejected (ForceUnlockError ''B'')) \<and>
   outcomeOf (snd (forceUnlock env0 ''R'' twoReadersQueued)) 2 = Some (Rejected (ForceUnlockError ''C'')) \<and>
   last (recentLogs (snd (forceUnlock env0 ''R'' twoReadersQueued))) = (10, forceUnlockMessage ''R'' [''A'']) \<and>
   fst (getActiveLocks flatCollation (snd (forceUnlock env0 ''R'' twoReadersQueued))) = [] \<and>
   fst (getLockQueue (snd (forceUnlock env0 ''R'' twoReadersQueued))) = []"
proof -
  let ?rc = "\<lparr>readers = [], writer = Some (''A'', 10),
              queue = [exampleRequest Read ''B'' 1, exampleRequest Read ''C'' 2]\<rparr>"
  have r: "reachable twoReadersQueued" by (rule reachable_twoReadersQueued)
  have l: "map_of (locks twoReadersQueued) ''R'' = Some ?rc" by (simp add: twoReadersQueued_eval)
  have e: "locks (snd (forceUnlock env0 ''R'' twoReadersQueued)) = []"
    unfolding twoReadersQueued_eval by (simp add: forceUnlock_def eval_defs exampleRequest_def)
  have a: "fst (getActiveLocks flatCollation (snd (forceUnlock env0 ''R'' twoReadersQueued))) = []"
    and b: "fst (getLockQueue (snd (forceUnlock env0 ''R'' twoReadersQueued))) = []"
    by (simp_all add: e getActiveLocks_def getLockQueue_def sortBy_def Let_def)
  show ?thesis
    using C5_forceUnlock_complete[OF r l, of env0 flatCollation] r l a b
    by (simp add: exampleRequest_def env0_def forceSessions_def)
qed






text \<open>
  Claim C8, where the code falls short of it. When the log directory cannot be
  created, \<open>clearAll\<close> on a new manager fails with the error of \<open>mkdir\<close> and the log buffer
  stays empty; an acquisition on a new manager, whose QUEUED line is logged without
  waiting, leaves a rejection nobody handles and the process ends. The failure of
  \<open>appendFile\<close>, which \<open>log\<close> does catch, has none of these effects: \<open>clearAll\<close> and the
  release of a lock succeed, the process lives and the buffer holds the lines.
\<close>

theorem C8_mkdir_failure_reaches_caller:
  "clearAll envNoDir newManager = (Inl MkdirError, newManager\<lparr>ensureLogDirPromise := Some False\<rparr>) \<and>
   recentLogs (snd (clearAll envNoDir newManager)) = [] \<and>
   terminated (acquireWriteLock envNoDir ''R'' ''A'' newManager) \<and>
   recentLogs (acquireWriteLock envNoDir ''R'' ''A'' newManager) = [] \<and>
   clearAll envNoAppend newManager =
     (Inr (), newManager\<lparr>ensureLogDirPromise := Some True, recentLogs := [(10, ''CLEAR_ALL invoked'')]\<rparr>) \<and>
   releaseLock envNoAppend ''R'' ''A'' (acquireWriteLock envNoAppend ''R'' ''A'' newManager) =
     (Inr (),
      \<lparr>locks = [],
       recentLogs = [(10, queuedMessage Write ''R'' ''A''), (10, acquiredMessage Write ''R'' ''A''),
                     (10, releasedMessage ''R'' ''A'')],
       ensureLogDirPromise = Some True, logFile = [],
       timers = [], outcomes = [(0, Resolved)], nextId = 1, simulations = [],
       releaseTimers = [], simReturns = [], terminated = False\<rparr>)"
  by (simp add: clearAll_def releaseLock_def eval_defs)




end
